theory Spec2Isabelle
  imports Complex_Main "HOL-Library.Word" "HOL-Library.Log_Nat"
begin

unbundle bit_operations_syntax

section \<open>The board: memory-mapped registers and their accesses\<close>

text \<open>
  Both programs of the repository talk to five memory-mapped 32-bit registers through
  \<^verbatim>\<open>volatile\<close> pointers: the two ADC channels (\<^verbatim>\<open>ADC_BASE + 0x00\<close>, \<^verbatim>\<open>ADC_BASE + 0x04\<close>),
  the JP1 data and direction registers (\<^verbatim>\<open>JP1_BASE + 0x00\<close>, \<^verbatim>\<open>JP1_BASE + 0x04\<close>) and the
  slide switches (\<^verbatim>\<open>SW_BASE\<close>). Every dereference of such a pointer is one bus access, so
  the model logs each one in program order.
\<close>

type_synonym u32 = "32 word"

datatype reg = ADC_CH0 | ADC_CH1 | JP1_DATA | JP1_DIR | SW

datatype access = Rd reg | Wr reg u32

text \<open>
  What the input registers present during one pass of the loop. The ADC free-runs and
  the switches are moved by a person, so these values are inputs of every iteration.
\<close>

record inputs =
  in_ch0 :: u32
  in_ch1 :: u32
  in_sw :: u32

text \<open>
  What the program leaves behind: the two JP1 registers it writes and the log of all its
  bus accesses, oldest first.
\<close>

record board =
  jp1_data :: u32
  jp1_dir :: u32
  trace :: "access list"

definition read_reg :: "inputs \<Rightarrow> reg \<Rightarrow> board \<Rightarrow> u32 \<times> board" where
  "read_reg i r b =
     ((case r of
         ADC_CH0 \<Rightarrow> in_ch0 i
       | ADC_CH1 \<Rightarrow> in_ch1 i
       | SW \<Rightarrow> in_sw i
       | JP1_DATA \<Rightarrow> jp1_data b
       | JP1_DIR \<Rightarrow> jp1_dir b),
      b\<lparr>trace := trace b @ [Rd r]\<rparr>)"

definition write_reg :: "reg \<Rightarrow> u32 \<Rightarrow> board \<Rightarrow> board" where
  "write_reg r v b =
     (case r of
        JP1_DATA \<Rightarrow> b\<lparr>jp1_data := v, trace := trace b @ [Wr r v]\<rparr>
      | JP1_DIR \<Rightarrow> b\<lparr>jp1_dir := v, trace := trace b @ [Wr r v]\<rparr>
      | _ \<Rightarrow> b\<lparr>trace := trace b @ [Wr r v]\<rparr>)"

text \<open>
  The set-up both \<^verbatim>\<open>main\<close> functions run before their loop:
  \<^verbatim>\<open>*jp1_dir_ptr = 0x3FF; *adc_ch0_ptr = 1; *adc_ch1_ptr = 1;\<close>
\<close>

definition setup_board :: "board \<Rightarrow> board" where
  "setup_board b = write_reg ADC_CH1 1 (write_reg ADC_CH0 1 (write_reg JP1_DIR 0x3FF b))"

text \<open>
  \<^verbatim>\<open>delay()\<close> counts a local \<^verbatim>\<open>volatile int\<close> to 100000 and touches no register: it
  always returns and leaves the board as it was.
\<close>

definition delay :: "board \<Rightarrow> board" where
  "delay b = b"

text \<open>
  The completion test both loops apply to a raw ADC word: \<^verbatim>\<open>adc_read & 0x10000\<close>, taken as
  a C truth value. The literal is written out in each program (the bar-graph source
  carries the remark \<^verbatim>\<open>change to 0x8000 for hardware\<close> next to it).
\<close>

definition conversion_done :: "u32 \<Rightarrow> bool" where
  "conversion_done raw = (raw AND 0x10000 \<noteq> 0)"

text \<open>The accesses a pass adds to the log, and the registers it reads among them.\<close>

definition new_accesses :: "board \<Rightarrow> board \<Rightarrow> access list" where
  "new_accesses b b' = drop (length (trace b)) (trace b')"

fun reads_of :: "access list \<Rightarrow> reg list" where
  "reads_of [] = []"
| "reads_of (Rd r # t) = r # reads_of t"
| "reads_of (Wr r v # t) = reads_of t"

text \<open>
  An access that respects the ten-LED actuator: it is not a read of the JP1 data
  register, and if it writes that register the value has no bit above bit 9.
\<close>

definition actuator_access_ok :: "access \<Rightarrow> bool" where
  "actuator_access_ok a =
     (case a of
        Rd r \<Rightarrow> r \<noteq> JP1_DATA
      | Wr r v \<Rightarrow> r \<noteq> JP1_DATA \<or> v \<le> 0x3FF)"

section \<open>The bar-graph program (the second source file)\<close>

text \<open>\<^verbatim>\<open>uint32_t led_count = (adc_value * 10) / 4095;\<close> in unsigned 32-bit arithmetic.\<close>

definition led_scale :: "u32 \<Rightarrow> u32" where
  "led_scale adc_value = (adc_value * 10) div 4095"

text \<open>\<^verbatim>\<open>if (led_count > 10) led_count = 10;\<close>\<close>

definition led_clamp :: "u32 \<Rightarrow> u32" where
  "led_clamp led_count = (if led_count > 10 then 10 else led_count)"

text \<open>
  \<^verbatim>\<open>uint32_t led_mask = (led_count > 0) ? ((1 << led_count) - 1) : 0;\<close>
  The shift is on \<^verbatim>\<open>int\<close> and is only defined by C for amounts below 31; it is reached
  with \<open>led_count \<le> 10\<close> only, where the 32-bit shift of the model is the C result.
\<close>

definition led_mask_of :: "u32 \<Rightarrow> u32" where
  "led_mask_of led_count = (if led_count > 0 then push_bit (unat led_count) 1 - 1 else 0)"

text \<open>The count and mask the loop body computes from the raw ADC word, lines 70 to 81.\<close>

definition led_count_of :: "u32 \<Rightarrow> u32" where
  "led_count_of adc_read = led_clamp (led_scale (adc_read AND 0xFFF))"

text \<open>
  The channel the switch selects, \<^verbatim>\<open>sw0 == 0\<close> with \<^verbatim>\<open>sw0 = (*sw_ptr) & 0x1\<close>, and the
  raw word that channel presents.
\<close>

definition selected :: "inputs \<Rightarrow> reg" where
  "selected i = (if in_sw i AND 0x1 = 0 then ADC_CH0 else ADC_CH1)"

definition selected_word :: "inputs \<Rightarrow> u32" where
  "selected_word i = (if in_sw i AND 0x1 = 0 then in_ch0 i else in_ch1 i)"

text \<open>One pass of the \<^verbatim>\<open>while (1)\<close> body of the bar-graph program.\<close>

definition quantizer_iter :: "inputs \<Rightarrow> board \<Rightarrow> board" where
  "quantizer_iter i b =
     (let (sw_word, b1) = read_reg i SW b;
          sw0 = sw_word AND 0x1;
          (adc_read, b2) = (if sw0 = 0 then read_reg i ADC_CH0 b1 else read_reg i ADC_CH1 b1);
          b3 = (if conversion_done adc_read
                then write_reg JP1_DATA (led_mask_of (led_count_of adc_read)) b2
                else b2)
      in delay b3)"

text \<open>
  The loop never ends. A run is followed for as many passes as there are input samples:
  \<open>quantizer_run b is\<close> is the board after set-up and \<open>length is\<close> passes.
\<close>

definition quantizer_run :: "board \<Rightarrow> inputs list \<Rightarrow> board" where
  "quantizer_run b is = foldl (\<lambda>s i. quantizer_iter i s) (setup_board b) is"

text \<open>
  The count as the specification words it, for comparison with the integer code:
  the amplitude is \<open>adc_value / 4095\<close>, the count is \<open>floor (amplitude * 10)\<close> clamped to
  the closed interval from 0 to 10, and the mask is \<open>(1 << count) - 1\<close>.
\<close>

definition spec_amplitude :: "nat \<Rightarrow> rat" where
  "spec_amplitude adc_value = of_nat adc_value / 4095"

definition spec_count :: "rat \<Rightarrow> int" where
  "spec_count amplitude = min 10 (max 0 \<lfloor>amplitude * 10\<rfloor>)"

definition spec_mask :: "int \<Rightarrow> int" where
  "spec_mask count = (if 0 < count then 2 ^ nat count - 1 else 0)"

section \<open>Single-precision arithmetic\<close>

text \<open>
  The stall program computes in C \<^verbatim>\<open>float\<close>: IEEE 754 binary32, each operation rounded
  to nearest with ties to even, every operand of the source being a \<^verbatim>\<open>float\<close> (the
  literals carry the suffix \<^verbatim>\<open>f\<close>, the root is \<^verbatim>\<open>sqrtf\<close>), so that no operation is
  carried out in a wider format. A \<^verbatim>\<open>float\<close> is modelled by the rational number it
  denotes, and each operation by the exact operation followed by \<open>round32\<close>. The
  unit in the last place of a number with binary exponent \<open>e\<close> is \<open>2 ^ (e - 23)\<close>;
  below \<open>2 ^ - 126\<close> the spacing stays \<open>2 ^ - 149\<close> (subnormal numbers). Overflow to
  infinity (magnitudes from \<open>2 ^ 128\<close>) and NaN are outside the model: the largest
  number the program forms is 1960000, and it never divides by zero.
\<close>

type_synonym float32 = rat

definition pow2 :: "int \<Rightarrow> rat" where
  "pow2 e = 2 powi e"

text \<open>\<open>ilog2 x\<close> is the binary exponent of a positive \<open>x\<close>: the floor of its logarithm to base 2.\<close>

definition ilog2 :: "rat \<Rightarrow> int" where
  "ilog2 x =
     (let (p, q) = quotient_of x;
          d = bitlen p - bitlen q
      in if pow2 d \<le> x then d else d - 1)"

text \<open>Rounding to the nearest integer, ties to the even one.\<close>

definition rne :: "rat \<Rightarrow> int" where
  "rne r =
     (let f = \<lfloor>r\<rfloor>;
          d = r - of_int f
      in if d < 1 / 2 then f
         else if 1 / 2 < d then f + 1
         else if even f then f else f + 1)"

definition round32 :: "rat \<Rightarrow> float32" where
  "round32 x =
     (if x = 0 then 0
      else let e = max (ilog2 \<bar>x\<bar>) (- 126);
               u = pow2 (e - 23)
           in of_int (rne (x / u)) * u)"

definition fmul :: "float32 \<Rightarrow> float32 \<Rightarrow> float32" where
  "fmul a b = round32 (a * b)"

definition fdiv :: "float32 \<Rightarrow> float32 \<Rightarrow> float32" where
  "fdiv a b = round32 (a / b)"

definition fsub :: "float32 \<Rightarrow> float32 \<Rightarrow> float32" where
  "fsub a b = round32 (a - b)"

text \<open>The conversion of a C \<^verbatim>\<open>int\<close> to \<^verbatim>\<open>float\<close>.\<close>

definition int_to_float :: "u32 \<Rightarrow> float32" where
  "int_to_float n = round32 (of_int (sint n))"

text \<open>The integer square root, by halving the number of bits.\<close>

function isqrt :: "int \<Rightarrow> int" where
  "isqrt n =
     (if n \<le> 0 then 0
      else let r = 2 * isqrt (n div 4)
           in if (r + 1) * (r + 1) \<le> n then r + 1 else r)"
  by pat_completeness auto
termination
  by (relation "measure nat") auto

declare isqrt.simps [simp del]

text \<open>
  \<^verbatim>\<open>sqrtf\<close>, correctly rounded as IEEE 754 requires. For a positive \<open>x\<close> with binary
  exponent \<open>2 * k\<close> or \<open>2 * k + 1\<close> the root lies in \<open>[2 ^ k, 2 ^ (k + 1))\<close>; with
  \<open>u = 2 ^ (k - 23)\<close> and \<open>s = x / u\<^sup>2\<close> the root is \<open>u * sqrt s\<close>, the integer part
  of \<open>sqrt s\<close> is \<open>m = isqrt (floor s)\<close>, and \<open>sqrt s\<close> is compared with \<open>m + 1 / 2\<close>
  by comparing the squares. The program takes the root of a positive number only
  (C gives NaN for a negative one; the model has no NaN and answers 0).
\<close>

definition sqrt32 :: "float32 \<Rightarrow> float32" where
  "sqrt32 x =
     (if x \<le> 0 then 0
      else let k = ilog2 x div 2;
               u = pow2 (k - 23);
               s = x / (u * u);
               m = isqrt \<lfloor>s\<rfloor>;
               h = (of_int m + 1 / 2) * (of_int m + 1 / 2)
           in of_int (if s < h then m
                      else if h < s then m + 1
                      else if even m then m else m + 1) * u)"

section \<open>The stall program (stall_indicator.c)\<close>

text \<open>
  The \<^verbatim>\<open>#define\<close>d parameters. A literal such as \<^verbatim>\<open>1.225f\<close> denotes the \<^verbatim>\<open>float\<close>
  nearest to the decimal number written.
\<close>

definition WEIGHT :: float32 where
  "WEIGHT = round32 980000"

definition RHO :: float32 where
  "RHO = round32 (1225 / 1000)"

definition WING_AREA :: float32 where
  "WING_AREA = round32 125"

definition CL_MAX :: float32 where
  "CL_MAX = round32 (12 / 10)"

definition MAX_AOA :: float32 where
  "MAX_AOA = round32 15"

text \<open>
  \<^verbatim>\<open>float velocity_stall = sqrtf((2.0f * WEIGHT) / (RHO * WING_AREA * CL_MAX));\<close>
  computed once, before the loop, from the constants alone.
\<close>

definition velocity_stall :: float32 where
  "velocity_stall =
     sqrt32 (fdiv (fmul (round32 2) WEIGHT) (fmul (fmul RHO WING_AREA) CL_MAX))"

text \<open>\<^verbatim>\<open>adc_val / 4095.0f\<close>, the subexpression both conversions start from.\<close>

definition amplitude :: "u32 \<Rightarrow> float32" where
  "amplitude adc_val = fdiv (int_to_float adc_val) (round32 4095)"

text \<open>\<^verbatim>\<open>float current_velocity = (adc_val0 / 4095.0f) * 300.0f;\<close>\<close>

definition current_velocity :: "u32 \<Rightarrow> float32" where
  "current_velocity adc_val0 = fmul (fdiv (int_to_float adc_val0) (round32 4095)) (round32 300)"

text \<open>\<^verbatim>\<open>float current_AoA = ((adc_val1 / 4095.0f) - 0.5f) * 60.0f;\<close>\<close>

definition current_AoA :: "u32 \<Rightarrow> float32" where
  "current_AoA adc_val1 =
     fmul (fsub (fdiv (int_to_float adc_val1) (round32 4095)) (round32 (1 / 2))) (round32 60)"

text \<open>\<^verbatim>\<open>int stalling = (current_velocity < velocity_stall) || (current_AoA > MAX_AOA);\<close>\<close>

definition stalling :: "float32 \<Rightarrow> float32 \<Rightarrow> bool" where
  "stalling velocity AoA = (velocity < velocity_stall \<or> AoA > MAX_AOA)"

text \<open>The value the \<^verbatim>\<open>if (stalling) ... else ...\<close> statement stores in the JP1 data register.\<close>

definition stall_mask :: "float32 \<Rightarrow> float32 \<Rightarrow> u32" where
  "stall_mask velocity AoA = (if stalling velocity AoA then 0x3FF else 0x000)"

text \<open>One pass of the \<^verbatim>\<open>while (1)\<close> body of the stall program.\<close>

definition stall_iter :: "inputs \<Rightarrow> board \<Rightarrow> board" where
  "stall_iter i b =
     (let (raw_ch0, b1) = read_reg i ADC_CH0 b;
          (raw_ch1, b2) = read_reg i ADC_CH1 b1;
          b3 = (if conversion_done raw_ch0 \<and> conversion_done raw_ch1
                then let adc_val0 = raw_ch0 AND 0xFFF;
                         adc_val1 = raw_ch1 AND 0xFFF
                     in write_reg JP1_DATA
                          (stall_mask (current_velocity adc_val0) (current_AoA adc_val1)) b2
                else b2)
      in delay b3)"

definition stall_run :: "board \<Rightarrow> inputs list \<Rightarrow> board" where
  "stall_run b is = foldl (\<lambda>s i. stall_iter i s) (setup_board b) is"

section \<open>Properties of the bar-graph scaling\<close>

lemma adc_value_le: "unat (w AND (0xFFF :: u32)) \<le> 4095"
proof -
  have "w AND 0xFFF \<le> (0xFFF :: u32)"
    by (rule word_and_le1)
  then show ?thesis
    by (simp add: word_le_nat_alt)
qed

lemma unat_led_scale:
  assumes "unat v \<le> 4095"
  shows "unat (led_scale v) = (unat v * 10) div 4095"
proof -
  have m: "unat (v * 10) = unat v * 10"
    using assms by (simp add: unat_word_ariths)
  show ?thesis
    unfolding led_scale_def by (simp add: unat_div m)
qed

lemma led_scale_le_10:
  assumes "unat v \<le> 4095"
  shows "unat (led_scale v) \<le> 10"
proof -
  have "(unat v * 10) div 4095 \<le> (4095 * 10) div 4095"
    using assms by (intro div_le_mono) simp
  then show ?thesis
    by (simp add: unat_led_scale [OF assms])
qed

lemma led_clamp_id:
  assumes "unat v \<le> 4095"
  shows "led_clamp (led_scale v) = led_scale v"
proof -
  have "unat (led_scale v) \<le> unat (10 :: u32)"
    using led_scale_le_10 [OF assms] by simp
  then have "led_scale v \<le> 10"
    by (simp only: word_le_nat_alt)
  then show ?thesis
    by (simp add: led_clamp_def not_less [symmetric])
qed

text \<open>
  Claim C10. The raw word is masked with \<open>0xFFF\<close> before scaling, so for every raw word
  the scaled count \<open>(adc_value * 10) / 4095\<close> is at most 10: the test
  \<open>led_count > 10\<close> is never true and the clamp never changes the count.
\<close>

theorem clamp_unreachable:
  "led_scale (adc_read AND 0xFFF) \<le> 10
   \<and> \<not> led_scale (adc_read AND 0xFFF) > 10
   \<and> led_count_of adc_read = led_scale (adc_read AND 0xFFF)"
proof -
  have "unat (led_scale (adc_read AND 0xFFF)) \<le> unat (10 :: u32)"
    using led_scale_le_10 [OF adc_value_le] by simp
  then have le: "led_scale (adc_read AND 0xFFF) \<le> 10"
    by (simp only: word_le_nat_alt)
  show ?thesis
    using le by (simp add: led_count_of_def led_clamp_id [OF adc_value_le] not_less)
qed

lemma u32_le_4095: "(v :: u32) \<le> 0xFFF \<Longrightarrow> unat v \<le> 4095"
  by (simp add: word_le_nat_alt)

lemma spec_count_eq:
  "spec_count (spec_amplitude n) = min 10 (int ((n * 10) div 4095))"
proof -
  have "spec_amplitude n * 10 = of_int (int (n * 10)) / of_int 4095"
    by (simp add: spec_amplitude_def)
  then have "\<lfloor>spec_amplitude n * 10\<rfloor> = int (n * 10) div 4095"
    by (simp only: floor_divide_of_int_eq)
  moreover have "int (n * 10) div 4095 = int ((n * 10) div 4095)"
    by (simp add: zdiv_int)
  ultimately show ?thesis
    by (simp add: spec_count_def)
qed

lemma unat_led_count:
  assumes "unat v \<le> 4095"
  shows "int (unat (led_clamp (led_scale v))) = spec_count (spec_amplitude (unat v))"
  using led_scale_le_10 [OF assms]
  by (simp add: led_clamp_id [OF assms] spec_count_eq unat_led_scale [OF assms])

lemma led_mask_of_mask:
  assumes "c \<le> (10 :: u32)"
  shows "led_mask_of c = mask (unat c)"
proof (cases "c = 0")
  case True
  then show ?thesis by (simp add: led_mask_of_def)
next
  case False
  then have "0 < c" by (simp add: word_greater_zero_iff)
  then show ?thesis
    by (simp add: led_mask_of_def mask_eq_exp_minus_1)
qed

lemma bit_led_mask_of:
  assumes "c \<le> (10 :: u32)"
  shows "bit (led_mask_of c) n \<longleftrightarrow> n < unat c"
proof -
  have "unat c \<le> 10"
    using assms by (simp add: word_le_nat_alt)
  then show ?thesis
    by (auto simp add: led_mask_of_mask [OF assms] bit_mask_iff)
qed

lemma card_led_mask_of:
  assumes "c \<le> (10 :: u32)"
  shows "card {n. bit (led_mask_of c) n} = unat c"
proof -
  have "{n. bit (led_mask_of c) n} = {..<unat c}"
    using bit_led_mask_of [OF assms] by auto
  then show ?thesis by simp
qed

lemma unat_led_mask_of:
  assumes "c \<le> (10 :: u32)"
  shows "int (unat (led_mask_of c)) = spec_mask (int (unat c))"
proof (cases "c = 0")
  case True
  then show ?thesis
    by (simp add: led_mask_of_def spec_mask_def)
next
  case False
  then have pos: "0 < unat c"
    by (simp add: unat_gt_0)
  have c10: "unat c \<le> 10"
    using assms by (simp add: word_le_nat_alt)
  have "uint (mask (unat c) :: u32) = mask (min LENGTH(32) (unat c))"
    by (rule uint_mask_eq)
  also have "\<dots> = 2 ^ unat c - 1"
    using c10 by (simp add: min_def mask_eq_exp_minus_1)
  finally have "uint (led_mask_of c) = 2 ^ unat c - 1"
    by (simp only: led_mask_of_mask [OF assms])
  moreover have "spec_mask (int (unat c)) = 2 ^ unat c - 1"
    using pos by (simp only: spec_mask_def of_nat_0_less_iff nat_int if_True)
  moreover have "int (unat (led_mask_of c)) = uint (led_mask_of c)"
    by simp
  ultimately show ?thesis
    by (simp only:)
qed

text \<open>
  Claim C4. For every 12-bit \<open>adc_value\<close> the count the code computes is the
  specification's \<open>floor (amplitude * 10)\<close> clamped to the interval from 0 to 10, the mask
  is \<open>(1 << count) - 1\<close> for a positive count and 0 otherwise, its set bits are exactly
  the bits below \<open>count\<close> (so there are \<open>count\<close> of them, contiguous from bit 0), and
  \<open>adc_value = 4095\<close> gives count 10 and mask \<open>0x3FF\<close>.
\<close>

theorem quantizer_count_mask:
  assumes "adc_value \<le> (0xFFF :: u32)"
  shows "int (unat (led_clamp (led_scale adc_value))) = spec_count (spec_amplitude (unat adc_value))
    \<and> led_clamp (led_scale adc_value) \<le> 10
    \<and> int (unat (led_mask_of (led_clamp (led_scale adc_value))))
        = spec_mask (int (unat (led_clamp (led_scale adc_value))))
    \<and> (\<forall>n. bit (led_mask_of (led_clamp (led_scale adc_value))) n
           \<longleftrightarrow> n < unat (led_clamp (led_scale adc_value)))
    \<and> card {n. bit (led_mask_of (led_clamp (led_scale adc_value))) n}
        = unat (led_clamp (led_scale adc_value))
    \<and> led_clamp (led_scale 4095) = 10
    \<and> led_mask_of (led_clamp (led_scale 4095)) = 0x3FF"
proof -
  have v: "unat adc_value \<le> 4095"
    using assms by (rule u32_le_4095)
  have "unat (led_clamp (led_scale adc_value)) \<le> unat (10 :: u32)"
    using led_scale_le_10 [OF v] by (simp add: led_clamp_id [OF v])
  then have c: "led_clamp (led_scale adc_value) \<le> 10"
    by (simp only: word_le_nat_alt)
  have top: "led_clamp (led_scale 4095) = 10"
    by (simp add: led_clamp_def led_scale_def)
  have topm: "led_mask_of (10 :: u32) = 0x3FF"
    by (simp add: led_mask_of_def)
  show ?thesis
    using unat_led_count [OF v] c unat_led_mask_of [OF c] bit_led_mask_of [OF c]
      card_led_mask_of [OF c] top topm
    by simp
qed

theorem quantizer_count_mask_witness:
  "(2048 :: u32) \<le> 0xFFF
   \<and> led_clamp (led_scale 2048) = 5
   \<and> spec_count (spec_amplitude 2048) = 5
   \<and> led_mask_of (led_clamp (led_scale 2048)) = 0x1F
   \<and> card {n. bit (0x1F :: u32) n} = 5"
proof -
  have h: "(2048 :: u32) \<le> 0xFFF" by simp
  have c: "led_clamp (led_scale 2048) = 5"
    by (simp add: led_clamp_def led_scale_def)
  have m: "led_mask_of (5 :: u32) = 0x1F"
    by (simp add: led_mask_of_def)
  show ?thesis
    using quantizer_count_mask [OF h] by (simp add: c m)
qed

lemma spec_amplitude_le_iff:
  "spec_amplitude m \<le> spec_amplitude n \<longleftrightarrow> m \<le> n"
proof -
  have "spec_amplitude m \<le> spec_amplitude n \<longleftrightarrow> (of_nat m :: rat) \<le> of_nat n"
    unfolding spec_amplitude_def by (simp add: divide_le_cancel)
  then show ?thesis
    by (simp only: of_nat_le_iff)
qed

text \<open>
  Claim C5. The count is monotone: for 12-bit values whose amplitudes satisfy
  \<open>amplitude1 \<le> amplitude2\<close> (equivalently, whose raw values do), the count of the first
  is at most the count of the second, in the code and in the specification's wording.
\<close>

theorem quantizer_count_mono:
  assumes "a \<le> (0xFFF :: u32)" and "b \<le> (0xFFF :: u32)"
    and "spec_amplitude (unat a) \<le> spec_amplitude (unat b)"
  shows "a \<le> b
    \<and> led_clamp (led_scale a) \<le> led_clamp (led_scale b)
    \<and> spec_count (spec_amplitude (unat a)) \<le> spec_count (spec_amplitude (unat b))"
proof -
  have ab: "unat a \<le> unat b"
    using assms(3) by (simp only: spec_amplitude_le_iff)
  have a: "unat a \<le> 4095"
    using assms(1) by (rule u32_le_4095)
  have b: "unat b \<le> 4095"
    using assms(2) by (rule u32_le_4095)
  have "(unat a * 10) div 4095 \<le> (unat b * 10) div 4095"
    using ab by (intro div_le_mono) simp
  then have "unat (led_scale a) \<le> unat (led_scale b)"
    by (simp add: unat_led_scale [OF a] unat_led_scale [OF b])
  then have le: "led_clamp (led_scale a) \<le> led_clamp (led_scale b)"
    by (simp add: led_clamp_id [OF a] led_clamp_id [OF b] word_le_nat_alt)
  then have "int (unat (led_clamp (led_scale a))) \<le> int (unat (led_clamp (led_scale b)))"
    by (simp add: word_le_def)
  then have "spec_count (spec_amplitude (unat a)) \<le> spec_count (spec_amplitude (unat b))"
    by (simp only: unat_led_count [OF a] unat_led_count [OF b])
  moreover have "a \<le> b"
    using ab by (simp only: word_le_nat_alt)
  ultimately show ?thesis
    using le by simp
qed

theorem quantizer_count_mono_witness:
  "(819 :: u32) \<le> 0xFFF \<and> (2048 :: u32) \<le> 0xFFF
   \<and> spec_amplitude (unat (819 :: u32)) \<le> spec_amplitude (unat (2048 :: u32))
   \<and> led_clamp (led_scale 819) = 2 \<and> led_clamp (led_scale 2048) = 5
   \<and> led_clamp (led_scale 819) \<le> led_clamp (led_scale 2048)"
proof -
  have h1: "(819 :: u32) \<le> 0xFFF" by simp
  have h2: "(2048 :: u32) \<le> 0xFFF" by simp
  have h3: "spec_amplitude (unat (819 :: u32)) \<le> spec_amplitude (unat (2048 :: u32))"
    by (simp add: spec_amplitude_def)
  have c: "led_clamp (led_scale 819) = 2" "led_clamp (led_scale 2048) = 5"
    by (simp_all add: led_clamp_def led_scale_def)
  show ?thesis
    using quantizer_count_mono [OF h1 h2 h3] h3 c by simp
qed

section \<open>The passes of the two loops\<close>

lemma conversion_done_bit: "conversion_done raw \<longleftrightarrow> bit raw 16"
proof -
  have "raw AND 2 ^ 16 = 0 \<longleftrightarrow> \<not> bit raw 16"
    by (rule and_exp_eq_0_iff_not_bit)
  then show ?thesis
    by (simp add: conversion_done_def)
qed

lemma sw0_bit: "(sw_word :: u32) AND 0x1 = 0 \<longleftrightarrow> \<not> bit sw_word 0"
  by (simp add: and_one_eq bit_0 even_iff_mod_2_eq_zero)

lemma selected_bit: "selected i = (if bit (in_sw i) 0 then ADC_CH1 else ADC_CH0)"
  by (simp add: selected_def sw0_bit)

lemma selected_word_bit: "selected_word i = (if bit (in_sw i) 0 then in_ch1 i else in_ch0 i)"
  by (simp add: selected_word_def sw0_bit)

lemma quantizer_iter_done:
  assumes "bit (selected_word i) 16"
  shows "quantizer_iter i b =
    b\<lparr>jp1_data := led_mask_of (led_count_of (selected_word i)),
      trace := trace b @ [Rd SW, Rd (selected i),
                          Wr JP1_DATA (led_mask_of (led_count_of (selected_word i)))]\<rparr>"
  using assms
  by (cases "bit (in_sw i) 0")
    (simp_all add: quantizer_iter_def read_reg_def write_reg_def delay_def sw0_bit
      conversion_done_bit selected_bit selected_word_bit)

lemma quantizer_iter_pending:
  assumes "\<not> bit (selected_word i) 16"
  shows "quantizer_iter i b = b\<lparr>trace := trace b @ [Rd SW, Rd (selected i)]\<rparr>"
  using assms
  by (cases "bit (in_sw i) 0")
    (simp_all add: quantizer_iter_def read_reg_def write_reg_def delay_def sw0_bit
      conversion_done_bit selected_bit selected_word_bit)

lemma stall_iter_done:
  assumes "bit (in_ch0 i) 16" and "bit (in_ch1 i) 16"
  shows "stall_iter i b =
    b\<lparr>jp1_data := stall_mask (current_velocity (in_ch0 i AND 0xFFF)) (current_AoA (in_ch1 i AND 0xFFF)),
      trace := trace b @ [Rd ADC_CH0, Rd ADC_CH1,
         Wr JP1_DATA (stall_mask (current_velocity (in_ch0 i AND 0xFFF))
                                 (current_AoA (in_ch1 i AND 0xFFF)))]\<rparr>"
  using assms
  by (simp add: stall_iter_def read_reg_def write_reg_def delay_def conversion_done_bit Let_def)

lemma stall_iter_pending:
  assumes "\<not> bit (in_ch0 i) 16 \<or> \<not> bit (in_ch1 i) 16"
  shows "stall_iter i b = b\<lparr>trace := trace b @ [Rd ADC_CH0, Rd ADC_CH1]\<rparr>"
  using assms
  by (auto simp add: stall_iter_def read_reg_def write_reg_def delay_def conversion_done_bit)

text \<open>
  Claim C3. In a pass in which a required sample has its completion bit (bit 16, the
  bit both programs test) unset, in the stall program either of the two channels and in
  the bar-graph program the selected channel, the pass only reads: the JP1 data register
  is not written and keeps its prior value.
\<close>

theorem incomplete_sample_no_write:
  "(\<not> bit (in_ch0 i) 16 \<or> \<not> bit (in_ch1 i) 16 \<longrightarrow>
      jp1_data (stall_iter i b) = jp1_data b
      \<and> new_accesses b (stall_iter i b) = [Rd ADC_CH0, Rd ADC_CH1])
   \<and> (\<not> bit (selected_word i) 16 \<longrightarrow>
      jp1_data (quantizer_iter i b) = jp1_data b
      \<and> new_accesses b (quantizer_iter i b) = [Rd SW, Rd (selected i)])"
  by (simp add: stall_iter_pending quantizer_iter_pending new_accesses_def)

theorem incomplete_sample_no_write_witness:
  "\<not> bit (in_ch0 \<lparr>in_ch0 = 0x0FFF, in_ch1 = 0x10FFF, in_sw = 1\<rparr>) 16
   \<and> jp1_data (stall_iter \<lparr>in_ch0 = 0x0FFF, in_ch1 = 0x10FFF, in_sw = 1\<rparr>
        \<lparr>jp1_data = 0x1F, jp1_dir = 0x3FF, trace = []\<rparr>) = 0x1F
   \<and> \<not> bit (selected_word \<lparr>in_ch0 = 0x10FFF, in_ch1 = 0x0FFF, in_sw = 1\<rparr>) 16
   \<and> jp1_data (quantizer_iter \<lparr>in_ch0 = 0x10FFF, in_ch1 = 0x0FFF, in_sw = 1\<rparr>
        \<lparr>jp1_data = 0x1F, jp1_dir = 0x3FF, trace = []\<rparr>) = 0x1F"
proof -
  have h1: "\<not> bit (in_ch0 \<lparr>in_ch0 = 0x0FFF, in_ch1 = 0x10FFF, in_sw = 1\<rparr>) 16"
    by (simp add: bit_iff_odd)
  have h2: "\<not> bit (selected_word \<lparr>in_ch0 = 0x10FFF, in_ch1 = 0x0FFF, in_sw = 1\<rparr>) 16"
    by (simp add: selected_word_def bit_iff_odd)
  show ?thesis
    using h1 h2
      incomplete_sample_no_write [of "\<lparr>in_ch0 = 0x0FFF, in_ch1 = 0x10FFF, in_sw = 1\<rparr>"
        "\<lparr>jp1_data = 0x1F, jp1_dir = 0x3FF, trace = []\<rparr>"]
      incomplete_sample_no_write [of "\<lparr>in_ch0 = 0x10FFF, in_ch1 = 0x0FFF, in_sw = 1\<rparr>"
        "\<lparr>jp1_data = 0x1F, jp1_dir = 0x3FF, trace = []\<rparr>"]
    by simp
qed

text \<open>
  Claim C7. A pass of the bar-graph program reads the switch register once and then
  exactly one ADC channel, channel 0 when bit 0 of the switch word is low and channel 1
  when it is high. A pass of the stall program reads both channels, whatever the
  switches show, and never reads the switch register.
\<close>

theorem channel_polling:
  "reads_of (new_accesses b (quantizer_iter i b)) = [SW, selected i]
   \<and> selected i = (if bit (in_sw i) 0 then ADC_CH1 else ADC_CH0)
   \<and> reads_of (new_accesses b (stall_iter i b)) = [ADC_CH0, ADC_CH1]
   \<and> stall_iter (i\<lparr>in_sw := s\<rparr>) b = stall_iter i b"
proof -
  have q: "reads_of (new_accesses b (quantizer_iter i b)) = [SW, selected i]"
    by (cases "bit (selected_word i) 16")
      (simp_all add: quantizer_iter_done quantizer_iter_pending new_accesses_def)
  have s: "reads_of (new_accesses b (stall_iter i b)) = [ADC_CH0, ADC_CH1]"
    by (cases "bit (in_ch0 i) 16 \<and> bit (in_ch1 i) 16")
      (auto simp add: stall_iter_done stall_iter_pending new_accesses_def)
  have "stall_iter (i\<lparr>in_sw := s\<rparr>) b = stall_iter i b"
    by (simp add: stall_iter_def read_reg_def)
  with q s show ?thesis
    by (simp add: selected_bit)
qed

text \<open>
  Claim C8, as amended. The completion test is not a parameter of either program: both
  test the fixed bit 16 (the literal \<open>0x10000\<close>). A raw word counts as complete exactly
  when its bit 16 is set, and a pass goes on to write the actuator exactly in that case.
\<close>

theorem completion_bit_fixed:
  "(conversion_done raw \<longleftrightarrow> bit raw 16)
   \<and> (new_accesses b (quantizer_iter i b) \<noteq> [Rd SW, Rd (selected i)] \<longleftrightarrow> bit (selected_word i) 16)
   \<and> (new_accesses b (stall_iter i b) \<noteq> [Rd ADC_CH0, Rd ADC_CH1]
        \<longleftrightarrow> bit (in_ch0 i) 16 \<and> bit (in_ch1 i) 16)"
proof -
  have q: "new_accesses b (quantizer_iter i b) \<noteq> [Rd SW, Rd (selected i)] \<longleftrightarrow> bit (selected_word i) 16"
    by (cases "bit (selected_word i) 16")
      (simp_all add: quantizer_iter_done quantizer_iter_pending new_accesses_def)
  have s: "new_accesses b (stall_iter i b) \<noteq> [Rd ADC_CH0, Rd ADC_CH1]
        \<longleftrightarrow> bit (in_ch0 i) 16 \<and> bit (in_ch1 i) 16"
    by (cases "bit (in_ch0 i) 16 \<and> bit (in_ch1 i) 16")
      (auto simp add: stall_iter_done stall_iter_pending new_accesses_def)
  show ?thesis
    using q s conversion_done_bit by simp
qed

text \<open>
  Claim C8, as stated, fails for the bit position 15 (the mask \<open>0x8000\<close> the source names
  for the hardware): a word with bit 15 set is not taken as complete, and neither program
  drives the actuator from it.
\<close>

theorem completion_bit_15_ignored:
  "bit (0x8FFF :: u32) 15 \<and> \<not> conversion_done 0x8FFF
   \<and> quantizer_iter \<lparr>in_ch0 = 0x8FFF, in_ch1 = 0x8FFF, in_sw = 0\<rparr>
        \<lparr>jp1_data = 0, jp1_dir = 0x3FF, trace = []\<rparr>
      = \<lparr>jp1_data = 0, jp1_dir = 0x3FF, trace = [Rd SW, Rd ADC_CH0]\<rparr>
   \<and> stall_iter \<lparr>in_ch0 = 0x8FFF, in_ch1 = 0x8FFF, in_sw = 0\<rparr>
        \<lparr>jp1_data = 0, jp1_dir = 0x3FF, trace = []\<rparr>
      = \<lparr>jp1_data = 0, jp1_dir = 0x3FF, trace = [Rd ADC_CH0, Rd ADC_CH1]\<rparr>"
  by (simp add: conversion_done_def quantizer_iter_def stall_iter_def read_reg_def delay_def bit_iff_odd)

section \<open>The values written to the actuator\<close>

lemma led_count_of_le_10: "led_count_of adc_read \<le> 10"
proof -
  have "unat (led_scale (adc_read AND 0xFFF)) \<le> unat (10 :: u32)"
    using led_scale_le_10 [OF adc_value_le] by simp
  then have "led_scale (adc_read AND 0xFFF) \<le> 10"
    by (simp only: word_le_nat_alt)
  then show ?thesis
    by (simp add: led_count_of_def led_clamp_id [OF adc_value_le])
qed

lemma led_mask_of_le:
  assumes "c \<le> (10 :: u32)"
  shows "led_mask_of c \<le> 0x3FF"
proof -
  have "unat c \<le> 10"
    using assms by (simp add: word_le_nat_alt)
  then have "(2::int) ^ unat c \<le> 2 ^ 10"
    by (intro power_increasing) simp_all
  then have "spec_mask (int (unat c)) \<le> 1023"
    by (simp add: spec_mask_def)
  then have "int (unat (led_mask_of c)) \<le> int 1023"
    by (simp only: unat_led_mask_of [OF assms] of_nat_numeral)
  then have "unat (led_mask_of c) \<le> 1023"
    by (simp only: of_nat_le_iff)
  then show ?thesis
    by (simp add: word_le_nat_alt)
qed

lemma stall_mask_le: "stall_mask v a \<le> 0x3FF"
  by (simp add: stall_mask_def)

lemma quantizer_iter_ok:
  assumes "list_all actuator_access_ok (trace b)"
  shows "list_all actuator_access_ok (trace (quantizer_iter i b))"
proof (cases "bit (selected_word i) 16")
  case True
  have "selected i \<noteq> JP1_DATA"
    by (simp add: selected_def)
  then show ?thesis
    using assms led_mask_of_le [OF led_count_of_le_10]
    by (simp add: quantizer_iter_done [OF True] actuator_access_ok_def)
next
  case False
  have "selected i \<noteq> JP1_DATA"
    by (simp add: selected_def)
  then show ?thesis
    using assms by (simp add: quantizer_iter_pending [OF False] actuator_access_ok_def)
qed

lemma stall_iter_ok:
  assumes "list_all actuator_access_ok (trace b)"
  shows "list_all actuator_access_ok (trace (stall_iter i b))"
proof (cases "bit (in_ch0 i) 16 \<and> bit (in_ch1 i) 16")
  case True
  then show ?thesis
    using assms stall_mask_le
    by (simp add: stall_iter_done actuator_access_ok_def)
next
  case False
  then have "\<not> bit (in_ch0 i) 16 \<or> \<not> bit (in_ch1 i) 16" by simp
  then show ?thesis
    using assms by (simp add: stall_iter_pending actuator_access_ok_def)
qed

lemma setup_board_ok:
  assumes "list_all actuator_access_ok (trace b)"
  shows "list_all actuator_access_ok (trace (setup_board b))"
  using assms by (simp add: setup_board_def write_reg_def actuator_access_ok_def)

lemma quantizer_passes_ok:
  "list_all actuator_access_ok (trace b) \<Longrightarrow>
   list_all actuator_access_ok (trace (foldl (\<lambda>s i. quantizer_iter i s) b is))"
  by (induction "is" arbitrary: b) (simp_all add: quantizer_iter_ok)

lemma stall_passes_ok:
  "list_all actuator_access_ok (trace b) \<Longrightarrow>
   list_all actuator_access_ok (trace (foldl (\<lambda>s i. stall_iter i s) b is))"
  by (induction "is" arbitrary: b) (simp_all add: stall_iter_ok)

lemma actuator_access_ok_iff:
  "actuator_access_ok a \<longleftrightarrow> a \<noteq> Rd JP1_DATA \<and> (\<forall>v. a = Wr JP1_DATA v \<longrightarrow> v \<le> 0x3FF)"
  by (cases a) (auto simp add: actuator_access_ok_def)

text \<open>
  Claim C9. Started from an empty log, after any number of passes of either program
  every write to the JP1 data register carried a value of at most \<open>0x3FF\<close> (no bit above
  bit 9), and the register was never read: there is no read-modify-write. A pass that
  writes leaves in the register the mask computed from that pass's inputs alone, whatever
  the register held before.
\<close>

theorem actuator_writes_bounded:
  assumes "trace b = []"
  shows "(\<forall>a \<in> set (trace (quantizer_run b is)).
            a \<noteq> Rd JP1_DATA \<and> (\<forall>v. a = Wr JP1_DATA v \<longrightarrow> v \<le> 0x3FF))
    \<and> (\<forall>a \<in> set (trace (stall_run b is)).
            a \<noteq> Rd JP1_DATA \<and> (\<forall>v. a = Wr JP1_DATA v \<longrightarrow> v \<le> 0x3FF))
    \<and> (bit (selected_word i) 16 \<longrightarrow>
          jp1_data (quantizer_iter i s) = led_mask_of (led_count_of (selected_word i))
          \<and> jp1_data (quantizer_iter i s) \<le> 0x3FF)
    \<and> (bit (in_ch0 i) 16 \<and> bit (in_ch1 i) 16 \<longrightarrow>
          jp1_data (stall_iter i s)
            = stall_mask (current_velocity (in_ch0 i AND 0xFFF)) (current_AoA (in_ch1 i AND 0xFFF))
          \<and> jp1_data (stall_iter i s) \<le> 0x3FF)"
proof -
  have b: "list_all actuator_access_ok (trace b)"
    using assms by simp
  have q: "list_all actuator_access_ok (trace (quantizer_run b is))"
    unfolding quantizer_run_def by (rule quantizer_passes_ok [OF setup_board_ok [OF b]])
  have s: "list_all actuator_access_ok (trace (stall_run b is))"
    unfolding stall_run_def by (rule stall_passes_ok [OF setup_board_ok [OF b]])
  have qd: "bit (selected_word i) 16 \<longrightarrow>
          jp1_data (quantizer_iter i s) = led_mask_of (led_count_of (selected_word i))
          \<and> jp1_data (quantizer_iter i s) \<le> 0x3FF"
    using led_mask_of_le [OF led_count_of_le_10] by (simp add: quantizer_iter_done)
  have sd: "bit (in_ch0 i) 16 \<and> bit (in_ch1 i) 16 \<longrightarrow>
          jp1_data (stall_iter i s)
            = stall_mask (current_velocity (in_ch0 i AND 0xFFF)) (current_AoA (in_ch1 i AND 0xFFF))
          \<and> jp1_data (stall_iter i s) \<le> 0x3FF"
    using stall_mask_le by (simp add: stall_iter_done)
  have q': "\<forall>a \<in> set (trace (quantizer_run b is)).
            a \<noteq> Rd JP1_DATA \<and> (\<forall>v. a = Wr JP1_DATA v \<longrightarrow> v \<le> 0x3FF)"
    using q by (simp add: list_all_iff actuator_access_ok_iff)
  have s': "\<forall>a \<in> set (trace (stall_run b is)).
            a \<noteq> Rd JP1_DATA \<and> (\<forall>v. a = Wr JP1_DATA v \<longrightarrow> v \<le> 0x3FF)"
    using s by (simp add: list_all_iff actuator_access_ok_iff)
  from q' s' qd sd show ?thesis
    by (intro conjI)
qed

text \<open>
  Claim C1. For every pair of converted readings the alarm is raised exactly when the
  velocity is below the stall threshold or the angle is above \<open>MAX_AOA\<close>; the mask
  driven is the full ten-bit mask \<open>0x3FF\<close> when the alarm is raised and \<open>0x000\<close>
  otherwise; and a pass in which both conversions are complete writes exactly that mask
  to the JP1 data register.
\<close>

theorem stall_alarm_mask:
  "(stalling velocity AoA \<longleftrightarrow> velocity < velocity_stall \<or> AoA > MAX_AOA)
   \<and> stall_mask velocity AoA = (if velocity < velocity_stall \<or> AoA > MAX_AOA then 0x3FF else 0x000)
   \<and> (bit (in_ch0 i) 16 \<and> bit (in_ch1 i) 16 \<longrightarrow>
        new_accesses b (stall_iter i b) =
          [Rd ADC_CH0, Rd ADC_CH1,
           Wr JP1_DATA (stall_mask (current_velocity (in_ch0 i AND 0xFFF))
                                   (current_AoA (in_ch1 i AND 0xFFF)))]
        \<and> jp1_data (stall_iter i b) =
            stall_mask (current_velocity (in_ch0 i AND 0xFFF)) (current_AoA (in_ch1 i AND 0xFFF)))"
  by (simp add: stalling_def stall_mask_def stall_iter_done new_accesses_def)


lemma velocity_stall_value: "velocity_stall = 6768529 / 65536"
  by code_simp

lemma MAX_AOA_value: "MAX_AOA = 15"
  by code_simp

lemma current_velocity_1365: "current_velocity 1365 = 100"
  by code_simp

lemma current_AoA_2048: "current_AoA 2048 = 30735 / 4194304"
  by code_simp

theorem actuator_writes_bounded_witness:
  "trace \<lparr>jp1_data = 0, jp1_dir = 0, trace = []\<rparr> = []
   \<and> trace (quantizer_run \<lparr>jp1_data = 0, jp1_dir = 0, trace = []\<rparr>
         [\<lparr>in_ch0 = 0x10FFF, in_ch1 = 0, in_sw = 0\<rparr>])
       = [Wr JP1_DIR 0x3FF, Wr ADC_CH0 1, Wr ADC_CH1 1, Rd SW, Rd ADC_CH0, Wr JP1_DATA 0x3FF]
   \<and> Wr JP1_DATA 0x3FF \<in> set (trace (quantizer_run \<lparr>jp1_data = 0, jp1_dir = 0, trace = []\<rparr>
         [\<lparr>in_ch0 = 0x10FFF, in_ch1 = 0, in_sw = 0\<rparr>]))
   \<and> Rd JP1_DATA \<notin> set (trace (quantizer_run \<lparr>jp1_data = 0, jp1_dir = 0, trace = []\<rparr>
         [\<lparr>in_ch0 = 0x10FFF, in_ch1 = 0, in_sw = 0\<rparr>]))
   \<and> (0x3FF :: u32) \<le> 0x3FF"
proof -
  have h: "trace \<lparr>jp1_data = 0, jp1_dir = 0, trace = []\<rparr> = []"
    by simp
  have m: "led_mask_of (led_count_of 0x10FFF) = 0x3FF"
    by (simp add: led_mask_of_def led_count_of_def led_clamp_def led_scale_def)
  have t: "trace (quantizer_run \<lparr>jp1_data = 0, jp1_dir = 0, trace = []\<rparr>
         [\<lparr>in_ch0 = 0x10FFF, in_ch1 = 0, in_sw = 0\<rparr>])
       = [Wr JP1_DIR 0x3FF, Wr ADC_CH0 1, Wr ADC_CH1 1, Rd SW, Rd ADC_CH0, Wr JP1_DATA 0x3FF]"
    by (simp add: quantizer_run_def setup_board_def write_reg_def quantizer_iter_def read_reg_def
        delay_def conversion_done_def m)
  show ?thesis
    using h t
      actuator_writes_bounded [OF h, of "[\<lparr>in_ch0 = 0x10FFF, in_ch1 = 0, in_sw = 0\<rparr>]"]
    by simp
qed

theorem stall_alarm_mask_witness:
  "bit (in_ch0 \<lparr>in_ch0 = 0x10555, in_ch1 = 0x10800, in_sw = 0\<rparr>) 16
   \<and> bit (in_ch1 \<lparr>in_ch0 = 0x10555, in_ch1 = 0x10800, in_sw = 0\<rparr>) 16
   \<and> current_velocity (0x10555 AND 0xFFF) < velocity_stall
   \<and> jp1_data (stall_iter \<lparr>in_ch0 = 0x10555, in_ch1 = 0x10800, in_sw = 0\<rparr>
         \<lparr>jp1_data = 0, jp1_dir = 0x3FF, trace = []\<rparr>) = 0x3FF"
proof -
  have h: "bit (in_ch0 \<lparr>in_ch0 = 0x10555, in_ch1 = 0x10800, in_sw = 0\<rparr>) 16
      \<and> bit (in_ch1 \<lparr>in_ch0 = 0x10555, in_ch1 = 0x10800, in_sw = 0\<rparr>) 16"
    by (simp add: bit_iff_odd)
  have v: "current_velocity (0x10555 AND 0xFFF) = 100"
    using current_velocity_1365 by simp
  show ?thesis
    using h v
      stall_alarm_mask [of "current_velocity (0x10555 AND 0xFFF)" "current_AoA (0x10800 AND 0xFFF)"
        "\<lparr>in_ch0 = 0x10555, in_ch1 = 0x10800, in_sw = 0\<rparr>"
        "\<lparr>jp1_data = 0, jp1_dir = 0x3FF, trace = []\<rparr>"]
    by (simp add: velocity_stall_value)
qed

section \<open>Properties of the single-precision operations\<close>

lemma pow2_pos: "0 < pow2 e"
  by (simp add: pow2_def)

lemma pow2_add: "pow2 (a + b) = pow2 a * pow2 b"
  by (simp add: pow2_def power_int_add)

lemma pow2_mono: "a \<le> b \<Longrightarrow> pow2 a \<le> pow2 b"
  by (simp add: pow2_def power_int_increasing)

lemma pow2_strict_mono: "a < b \<Longrightarrow> pow2 a < pow2 b"
  by (simp add: pow2_def power_int_strict_increasing)

lemma pow2_nonneg_exp: "0 \<le> e \<Longrightarrow> pow2 e = of_int (2 ^ nat e)"
  by (simp add: pow2_def power_int_nonneg_exp)

lemma pow2_less_imp: "pow2 a < pow2 b \<Longrightarrow> a < b"
  using pow2_mono [of b a] by (cases "a < b") simp_all

lemma bitlen_rat_bounds:
  assumes "0 < p"
  shows "pow2 (bitlen p - 1) \<le> of_int p" and "of_int p < pow2 (bitlen p)"
proof -
  have b: "2 ^ nat (bitlen p - 1) \<le> p \<and> p < 2 ^ nat (bitlen p)"
    using assms by (rule bitlen_bounds)
  have ge1: "1 \<le> bitlen p"
  proof (rule ccontr)
    assume "\<not> 1 \<le> bitlen p"
    then have "bitlen p = 0"
      using bitlen_nonneg [of p] by simp
    then show False using b assms by simp
  qed
  have "(of_int (2 ^ nat (bitlen p - 1)) :: rat) \<le> of_int p"
    using b by (simp only: of_int_le_iff)
  then show "pow2 (bitlen p - 1) \<le> of_int p"
    using ge1 by (simp only: pow2_nonneg_exp [of "bitlen p - 1"] diff_ge_0_iff_ge)
  have "(of_int p :: rat) < of_int (2 ^ nat (bitlen p))"
    using b by (simp only: of_int_less_iff)
  then show "of_int p < pow2 (bitlen p)"
    using bitlen_nonneg [of p] by (simp only: pow2_nonneg_exp [of "bitlen p"])
qed

lemma ilog2_bounds:
  assumes "0 < x"
  shows "pow2 (ilog2 x) \<le> x" and "x < pow2 (ilog2 x + 1)"
proof -
  obtain p q where pq: "quotient_of x = (p, q)"
    by (cases "quotient_of x")
  have q: "0 < q"
    using pq by (rule quotient_of_denom_pos)
  have x: "x = of_int p / of_int q"
    using pq by (rule quotient_of_div)
  have xq: "x * of_int q = of_int p"
    using q by (simp add: x)
  have p: "0 < p"
  proof -
    have "0 < x * of_int q"
      using assms q by simp
    then show ?thesis
      by (simp only: xq of_int_0_less_iff)
  qed
  define d where "d = bitlen p - bitlen q"
  have lo: "pow2 (d - 1) < x"
  proof -
    have "pow2 (d - 1) * of_int q < pow2 (d - 1) * pow2 (bitlen q)"
      using bitlen_rat_bounds(2) [OF q] pow2_pos by (simp only: mult_less_cancel_left_pos)
    also have "\<dots> = pow2 (bitlen p - 1)"
      by (simp add: d_def pow2_add [symmetric])
    also have "\<dots> \<le> x * of_int q"
      using bitlen_rat_bounds(1) [OF p] by (simp only: xq)
    finally show ?thesis
      using q by simp
  qed
  have hi: "x < pow2 (d + 1)"
  proof -
    have "x * of_int q < pow2 (bitlen p)"
      using bitlen_rat_bounds(2) [OF p] by (simp only: xq)
    also have "\<dots> = pow2 (d + 1) * pow2 (bitlen q - 1)"
      by (simp add: d_def pow2_add [symmetric])
    also have "\<dots> \<le> pow2 (d + 1) * of_int q"
      using bitlen_rat_bounds(1) [OF q] pow2_pos [of "d + 1"] by (simp only: mult_le_cancel_left_pos)
    finally show ?thesis
      using q by simp
  qed
  have il: "ilog2 x = (if pow2 d \<le> x then d else d - 1)"
    by (simp add: ilog2_def pq d_def)
  show "pow2 (ilog2 x) \<le> x"
    using lo by (simp add: il)
  show "x < pow2 (ilog2 x + 1)"
    using hi by (simp add: il not_le)
qed

lemma ilog2_unique:
  assumes "0 < x" and "pow2 e \<le> x" and "x < pow2 (e + 1)"
  shows "ilog2 x = e"
proof -
  have "pow2 (ilog2 x) < pow2 (e + 1)"
    using ilog2_bounds(1) [OF assms(1)] assms(3) by simp
  then have a: "ilog2 x < e + 1"
    by (rule pow2_less_imp)
  have "pow2 e < pow2 (ilog2 x + 1)"
    using ilog2_bounds(2) [OF assms(1)] assms(2) by simp
  then have "e < ilog2 x + 1"
    by (rule pow2_less_imp)
  with a show ?thesis by simp
qed

lemma ilog2_mono:
  assumes "0 < x" and "x \<le> y"
  shows "ilog2 x \<le> ilog2 y"
proof -
  have y: "0 < y" using assms by simp
  have "pow2 (ilog2 x) < pow2 (ilog2 y + 1)"
    using ilog2_bounds(1) [OF assms(1)] ilog2_bounds(2) [OF y] assms(2) by simp
  then have "ilog2 x < ilog2 y + 1"
    by (rule pow2_less_imp)
  then show ?thesis by simp
qed

lemma rne_of_int: "rne (of_int n) = n"
  by (simp add: rne_def)

lemma rne_cases: "rne r = \<lfloor>r\<rfloor> \<or> rne r = \<lfloor>r\<rfloor> + 1"
  by (simp add: rne_def Let_def)

lemma rne_mono:
  assumes "r \<le> s"
  shows "rne r \<le> rne s"
proof (cases "\<lfloor>r\<rfloor> = \<lfloor>s\<rfloor>")
  case True
  have "r - of_int \<lfloor>s\<rfloor> \<le> s - of_int \<lfloor>s\<rfloor>"
    using assms by simp
  then show ?thesis
    by (simp add: rne_def Let_def True)
next
  case False
  have "\<lfloor>r\<rfloor> \<le> \<lfloor>s\<rfloor>"
    using assms by (rule floor_mono)
  then have "\<lfloor>r\<rfloor> + 1 \<le> \<lfloor>s\<rfloor>"
    using False by simp
  then show ?thesis
    using rne_cases [of r] rne_cases [of s] by linarith
qed

lemma rne_error: "\<bar>of_int (rne r) - r\<bar> \<le> 1 / 2"
proof -
  have "of_int \<lfloor>r\<rfloor> \<le> r" and "r < of_int \<lfloor>r\<rfloor> + 1"
    by linarith+
  then show ?thesis
    by (auto simp add: rne_def Let_def abs_le_iff)
qed

lemma rne_minus: "rne (- r) = - rne r"
proof (cases "r = of_int \<lfloor>r\<rfloor>")
  case True
  then have "r = of_int \<lfloor>r\<rfloor>" .
  then obtain n where "r = of_int n" ..
  then show ?thesis
    by (simp add: rne_of_int flip: of_int_minus)
next
  case False
  then have fl: "\<lfloor>- r\<rfloor> = - \<lfloor>r\<rfloor> - 1"
    by (simp add: floor_minus ceiling_altdef)
  have b: "of_int \<lfloor>r\<rfloor> \<le> r" "r < of_int \<lfloor>r\<rfloor> + 1"
    by linarith+
  show ?thesis
    using b False by (auto simp add: rne_def Let_def fl)
qed


lemma round32_nonzero:
  assumes "x \<noteq> 0"
  shows "round32 x = of_int (rne (x / pow2 (max (ilog2 \<bar>x\<bar>) (- 126) - 23)))
    * pow2 (max (ilog2 \<bar>x\<bar>) (- 126) - 23)"
  using assms by (simp add: round32_def Let_def)

lemma round32_zero: "round32 0 = 0"
  by (simp add: round32_def)

lemma round32_minus: "round32 (- x) = - round32 x"
  by (cases "x = 0") (simp_all add: round32_def Let_def rne_minus)

lemma grid_round_ge:
  assumes "0 < u" and "of_int n * u \<le> x"
  shows "of_int n * u \<le> of_int (rne (x / u)) * u"
proof -
  have "of_int n \<le> x / u"
    using assms by (simp add: le_divide_eq)
  then have "rne (of_int n) \<le> rne (x / u)"
    by (rule rne_mono)
  then have "(of_int n :: rat) \<le> of_int (rne (x / u))"
    by (simp only: rne_of_int of_int_le_iff)
  then show ?thesis
    using assms(1) by (simp only: mult_le_cancel_right_pos)
qed

lemma grid_round_le:
  assumes "0 < u" and "x \<le> of_int n * u"
  shows "of_int (rne (x / u)) * u \<le> of_int n * u"
proof -
  have "x / u \<le> of_int n"
    using assms by (simp add: divide_le_eq)
  then have "rne (x / u) \<le> rne (of_int n)"
    by (rule rne_mono)
  then have "(of_int (rne (x / u)) :: rat) \<le> of_int n"
    by (simp only: rne_of_int of_int_le_iff)
  then show ?thesis
    using assms(1) by (simp only: mult_le_cancel_right_pos)
qed

lemma pow2_split_23: "pow2 e = of_int (2 ^ 23) * pow2 (e - 23)"
proof -
  have "pow2 e = pow2 (23 + (e - 23))" by (rule arg_cong [of _ _ pow2]) simp
  also have "\<dots> = pow2 23 * pow2 (e - 23)" by (rule pow2_add)
  also have "pow2 23 = of_int (2 ^ 23)" by (simp add: pow2_def)
  finally show ?thesis .
qed

lemma pow2_split_24: "pow2 (e + 1) = of_int (2 ^ 24) * pow2 (e - 23)"
proof -
  have "pow2 (e + 1) = pow2 (24 + (e - 23))" by (rule arg_cong [of _ _ pow2]) simp
  also have "\<dots> = pow2 24 * pow2 (e - 23)" by (rule pow2_add)
  also have "pow2 24 = of_int (2 ^ 24)" by (simp add: pow2_def)
  finally show ?thesis .
qed

lemma round32_mono_pos:
  assumes "0 < x" and "x \<le> y"
  shows "round32 x \<le> round32 y"
proof -
  have y: "0 < y" using assms by simp
  define ex where "ex = max (ilog2 x) (- 126)"
  define ey where "ey = max (ilog2 y) (- 126)"
  have rx: "round32 x = of_int (rne (x / pow2 (ex - 23))) * pow2 (ex - 23)"
    using assms(1) by (simp add: round32_nonzero ex_def)
  have ry: "round32 y = of_int (rne (y / pow2 (ey - 23))) * pow2 (ey - 23)"
    using y by (simp add: round32_nonzero ey_def)
  have le: "ex \<le> ey"
    using ilog2_mono [OF assms] by (simp add: ex_def ey_def)
  show ?thesis
  proof (cases "ex = ey")
    case True
    have "x / pow2 (ey - 23) \<le> y / pow2 (ey - 23)"
      using assms(2) pow2_pos [of "ey - 23"] by (simp add: divide_right_mono)
    then have "rne (x / pow2 (ey - 23)) \<le> rne (y / pow2 (ey - 23))"
      by (rule rne_mono)
    then have "(of_int (rne (x / pow2 (ey - 23))) :: rat) \<le> of_int (rne (y / pow2 (ey - 23)))"
      by (simp only: of_int_le_iff)
    then show ?thesis
      using pow2_pos [of "ey - 23"] by (simp only: rx ry True mult_le_cancel_right_pos)
  next
    case False
    then have lt: "ex + 1 \<le> ey" using le by simp
    then have eyl: "ey = ilog2 y"
      by (simp add: ex_def ey_def max_def split: if_splits)
    have "x < pow2 (ilog2 x + 1)"
      using assms(1) by (rule ilog2_bounds(2))
    also have "\<dots> \<le> pow2 (ex + 1)"
      by (rule pow2_mono) (simp add: ex_def)
    finally have "x \<le> of_int (2 ^ 24) * pow2 (ex - 23)"
      by (simp only: pow2_split_24 less_imp_le)
    then have "round32 x \<le> of_int (2 ^ 24) * pow2 (ex - 23)"
      unfolding rx by (rule grid_round_le [OF pow2_pos])
    also have "\<dots> = pow2 (ex + 1)"
      by (simp only: pow2_split_24)
    also have "\<dots> \<le> pow2 ey"
      using lt by (rule pow2_mono)
    also have "\<dots> \<le> round32 y"
    proof -
      have "pow2 ey \<le> y"
        using ilog2_bounds(1) [OF y] by (simp only: eyl)
      then have "of_int (2 ^ 23) * pow2 (ey - 23) \<le> y"
        by (simp only: pow2_split_23 [symmetric])
      then have "of_int (2 ^ 23) * pow2 (ey - 23) \<le> round32 y"
        unfolding ry by (rule grid_round_ge [OF pow2_pos])
      then show ?thesis
        by (simp only: pow2_split_23 [symmetric])
    qed
    finally show ?thesis .
  qed
qed

lemma round32_nonneg:
  assumes "0 \<le> x"
  shows "0 \<le> round32 x"
proof (cases "x = 0")
  case True
  then show ?thesis by (simp add: round32_zero)
next
  case False
  define u where "u = pow2 (max (ilog2 \<bar>x\<bar>) (- 126) - 23)"
  have u: "0 < u" by (simp add: u_def pow2_pos)
  have "of_int 0 * u \<le> x" using assms by simp
  then have "of_int 0 * u \<le> of_int (rne (x / u)) * u"
    by (rule grid_round_ge [OF u])
  then show ?thesis
    by (simp add: round32_nonzero [OF False] u_def)
qed

lemma round32_mono:
  assumes "x \<le> y"
  shows "round32 x \<le> round32 y"
proof -
  consider "0 < x" | "x \<le> 0" "0 \<le> y" | "y < 0" by linarith
  then show ?thesis
  proof cases
    case 1
    then show ?thesis using assms by (rule round32_mono_pos)
  next
    case 2
    have "0 \<le> round32 (- x)"
      using 2(1) by (intro round32_nonneg) simp
    then have "round32 x \<le> 0"
      by (simp add: round32_minus)
    also have "0 \<le> round32 y"
      using 2(2) by (rule round32_nonneg)
    finally show ?thesis .
  next
    case 3
    have "round32 (- y) \<le> round32 (- x)"
      using 3 assms by (intro round32_mono_pos) simp_all
    then show ?thesis
      by (simp add: round32_minus)
  qed
qed

lemma round32_error:
  assumes "\<bar>x\<bar> \<le> pow2 k" and "- 126 \<le> k"
  shows "\<bar>round32 x - x\<bar> \<le> pow2 (k - 24)"
proof (cases "x = 0")
  case True
  then show ?thesis
    using pow2_pos [of "k - 24"] by (simp add: round32_zero)
next
  case False
  define e where "e = max (ilog2 \<bar>x\<bar>) (- 126)"
  define u where "u = pow2 (e - 23)"
  have u: "0 < u" by (simp add: u_def pow2_pos)
  have ax: "0 < \<bar>x\<bar>" using False by simp
  have "pow2 (ilog2 \<bar>x\<bar>) < pow2 (k + 1)"
  proof -
    have "pow2 (ilog2 \<bar>x\<bar>) \<le> \<bar>x\<bar>" using ax by (rule ilog2_bounds(1))
    also have "\<dots> \<le> pow2 k" by (rule assms(1))
    also have "\<dots> < pow2 (k + 1)" by (rule pow2_strict_mono) simp
    finally show ?thesis .
  qed
  then have "ilog2 \<bar>x\<bar> < k + 1" by (rule pow2_less_imp)
  then have ek: "e \<le> k" using assms(2) by (simp add: e_def)
  have "round32 x - x = (of_int (rne (x / u)) - x / u) * u"
    using u by (simp add: round32_nonzero [OF False] u_def e_def left_diff_distrib)
  then have "\<bar>round32 x - x\<bar> = \<bar>of_int (rne (x / u)) - x / u\<bar> * u"
    using u by (simp add: abs_mult)
  also have "\<dots> \<le> 1 / 2 * u"
    using rne_error [of "x / u"] u by (simp only: mult_le_cancel_right_pos)
  also have "\<dots> = pow2 (e - 24)"
  proof -
    have "pow2 (e - 23) = pow2 (1 + (e - 24))" by (rule arg_cong [of _ _ pow2]) simp
    also have "\<dots> = pow2 1 * pow2 (e - 24)" by (rule pow2_add)
    finally show ?thesis by (simp add: u_def pow2_def)
  qed
  also have "\<dots> \<le> pow2 (k - 24)"
    using ek by (intro pow2_mono) simp
  finally show ?thesis .
qed

section \<open>The conversions of the stall program\<close>

lemma round32_int:
  assumes "0 < n" and "n < 2 ^ 24"
  shows "round32 (of_int n) = of_int n"
proof -
  define x :: rat where "x = of_int n"
  define e where "e = ilog2 x"
  have x: "0 < x" using assms(1) by (simp add: x_def)
  have "pow2 0 \<le> x"
    using assms(1) by (simp add: x_def pow2_def)
  also have "x < pow2 (e + 1)"
    unfolding e_def using x by (rule ilog2_bounds(2))
  finally have "0 < e + 1" by (rule pow2_less_imp)
  then have e0: "0 \<le> e" by simp
  have "pow2 e \<le> x"
    unfolding e_def using x by (rule ilog2_bounds(1))
  also have "x < of_int (2 ^ 24)"
    unfolding x_def using assms(2) by (simp only: of_int_less_iff)
  also have "of_int (2 ^ 24) = pow2 24"
    by (simp add: pow2_def)
  finally have "e < 24" by (rule pow2_less_imp)
  then have e23: "0 \<le> 23 - e" by simp
  define u where "u = pow2 (e - 23)"
  define m where "m = n * 2 ^ nat (23 - e)"
  have u: "0 < u" by (simp add: u_def pow2_pos)
  have "pow2 (23 - e) * u = pow2 ((23 - e) + (e - 23))"
    unfolding u_def by (rule pow2_add [symmetric])
  then have one: "pow2 (23 - e) * u = 1"
    by (simp add: pow2_def)
  have "of_int m * u = x * (pow2 (23 - e) * u)"
    by (simp add: m_def x_def pow2_nonneg_exp [OF e23])
  then have xm: "of_int m * u = x"
    by (simp only: one mult_1_right)
  then have "x / u = of_int m"
    using u by (simp add: divide_eq_eq)
  moreover have "max (ilog2 \<bar>x\<bar>) (- 126) = e"
    using x e0 by (simp add: e_def)
  moreover have "x \<noteq> 0" using x by simp
  ultimately have "round32 x = of_int (rne (of_int m)) * u"
    by (simp add: round32_nonzero u_def)
  then show ?thesis
    by (simp only: rne_of_int xm) (simp only: x_def)
qed

lemma sint_adc_val:
  assumes "a \<le> (0xFFF :: u32)"
  shows "sint a = int (unat a)"
proof -
  have "uint a \<le> uint (0xFFF :: u32)"
    using assms by (simp only: word_le_def)
  then have "uint a < 2 ^ 31" by simp
  moreover have "- (2 ^ 31) \<le> uint a"
  proof -
    have "- (2 ^ 31) \<le> (0::int)" by simp
    also have "0 \<le> uint a" by simp
    finally show ?thesis .
  qed
  ultimately have "signed_take_bit 31 (uint a) = uint a"
    by (intro signed_take_bit_int_eq_self)
  then show ?thesis
    by (simp add: sint_uint)
qed

lemma int_to_float_adc_val:
  assumes "a \<le> (0xFFF :: u32)"
  shows "int_to_float a = of_nat (unat a)"
proof (cases "a = 0")
  case True
  then show ?thesis
    by (simp add: int_to_float_def round32_zero)
next
  case False
  then have "0 < unat a"
    by (simp add: unat_gt_0)
  then have pos: "0 < int (unat a)"
    by (simp only: of_nat_0_less_iff)
  have "unat a \<le> 4095"
    using assms by (simp add: word_le_nat_alt)
  then have "int (unat a) \<le> int 4095"
    by (simp only: of_nat_le_iff)
  also have "int 4095 < 2 ^ 24" by simp
  finally have "int (unat a) < 2 ^ 24" .
  then have "round32 (of_int (int (unat a))) = of_int (int (unat a))"
    using pos by (intro round32_int)
  then show ?thesis
    by (simp only: int_to_float_def sint_adc_val [OF assms] of_int_of_nat_eq)
qed

lemma round32_literals:
  "round32 4095 = 4095" "round32 300 = 300" "round32 (1 / 2) = 1 / 2" "round32 60 = 60"
  "round32 1 = 1" "round32 30 = 30" "round32 2 = 2"
  by code_simp+

lemma amplitude_eq:
  assumes "a \<le> (0xFFF :: u32)"
  shows "amplitude a = round32 (of_nat (unat a) / 4095)"
  by (simp only: amplitude_def fdiv_def int_to_float_adc_val [OF assms] round32_literals)

lemma quotient_round_range:
  assumes "n \<le> (4095 :: nat)"
  shows "0 \<le> round32 (of_nat n / 4095)" and "round32 (of_nat n / 4095) \<le> 1"
proof -
  have "(0::rat) \<le> of_nat n / 4095" by simp
  then show "0 \<le> round32 (of_nat n / 4095)"
    by (rule round32_nonneg)
  have "(of_nat n :: rat) / 4095 \<le> 1"
    using assms by simp
  then have "round32 (of_nat n / 4095) \<le> round32 1"
    by (rule round32_mono)
  then show "round32 (of_nat n / 4095) \<le> 1"
    by (simp only: round32_literals)
qed

lemma quotient_round_mono:
  assumes "m \<le> (n :: nat)"
  shows "round32 (of_nat m / 4095) \<le> round32 (of_nat n / 4095)"
proof -
  have "(of_nat m :: rat) / 4095 \<le> of_nat n / 4095"
    using assms by (simp add: divide_right_mono)
  then show ?thesis
    by (rule round32_mono)
qed

lemma quotient_round_error:
  assumes "n \<le> (4095 :: nat)"
  shows "\<bar>round32 (of_nat n / 4095) - of_nat n / 4095\<bar> \<le> 1 / 2 ^ 24"
proof -
  have "\<bar>(of_nat n :: rat) / 4095\<bar> \<le> pow2 0"
    using assms by (simp add: pow2_def)
  then have "\<bar>round32 (of_nat n / 4095) - of_nat n / 4095\<bar> \<le> pow2 (0 - 24)"
    by (rule round32_error) simp
  then show ?thesis
    by (simp add: pow2_def)
qed

lemma amplitude_range:
  assumes "a \<le> (0xFFF :: u32)"
  shows "0 \<le> amplitude a" and "amplitude a \<le> 1"
proof -
  have n: "unat a \<le> 4095"
    using assms by (simp add: word_le_nat_alt)
  show "0 \<le> amplitude a"
    unfolding amplitude_eq [OF assms] by (rule quotient_round_range(1) [OF n])
  show "amplitude a \<le> 1"
    unfolding amplitude_eq [OF assms] by (rule quotient_round_range(2) [OF n])
qed

lemma amplitude_mono:
  assumes "a \<le> b" and "b \<le> (0xFFF :: u32)"
  shows "amplitude a \<le> amplitude b"
proof -
  have a: "a \<le> 0xFFF" using assms by simp
  have "unat a \<le> unat b"
    using assms(1) by (simp add: word_le_nat_alt)
  then show ?thesis
    unfolding amplitude_eq [OF a] amplitude_eq [OF assms(2)] by (rule quotient_round_mono)
qed

lemma amplitude_error:
  assumes "a \<le> (0xFFF :: u32)"
  shows "\<bar>amplitude a - of_nat (unat a) / 4095\<bar> \<le> 1 / 2 ^ 24"
proof -
  have n: "unat a \<le> 4095"
    using assms by (simp add: word_le_nat_alt)
  show ?thesis
    unfolding amplitude_eq [OF assms] by (rule quotient_round_error [OF n])
qed

lemma current_velocity_eq: "current_velocity a = fmul (amplitude a) 300"
  by (simp add: current_velocity_def amplitude_def round32_literals)

lemma current_AoA_eq: "current_AoA a = fmul (fsub (amplitude a) (1 / 2)) 60"
  by (simp add: current_AoA_def amplitude_def round32_literals)

lemma current_velocity_range:
  assumes "a \<le> (0xFFF :: u32)"
  shows "0 \<le> current_velocity a" and "current_velocity a \<le> 300"
proof -
  have r: "0 \<le> amplitude a" "amplitude a \<le> 1"
    using assms by (rule amplitude_range)+
  have "0 \<le> amplitude a * 300" using r(1) by simp
  then show "0 \<le> current_velocity a"
    unfolding current_velocity_eq fmul_def by (rule round32_nonneg)
  have "amplitude a * 300 \<le> 300" using r(2) by simp
  then have "round32 (amplitude a * 300) \<le> round32 300"
    by (rule round32_mono)
  then show "current_velocity a \<le> 300"
    by (simp only: current_velocity_eq fmul_def round32_literals)
qed

lemma current_AoA_range:
  assumes "a \<le> (0xFFF :: u32)"
  shows "- 30 \<le> current_AoA a" and "current_AoA a \<le> 30"
proof -
  have r: "0 \<le> amplitude a" "amplitude a \<le> 1"
    using assms by (rule amplitude_range)+
  define t where "t = fsub (amplitude a) (1 / 2)"
  have "round32 (- (1 / 2)) \<le> round32 (amplitude a - 1 / 2)"
    using r(1) by (intro round32_mono) simp
  then have lo: "- (1 / 2) \<le> t"
    by (simp add: t_def fsub_def round32_minus round32_literals)
  have "round32 (amplitude a - 1 / 2) \<le> round32 (1 / 2)"
    using r(2) by (intro round32_mono) simp
  then have hi: "t \<le> 1 / 2"
    by (simp add: t_def fsub_def round32_literals)
  have "round32 (- 30) \<le> round32 (t * 60)"
    using lo by (intro round32_mono) simp
  then show "- 30 \<le> current_AoA a"
    by (simp add: current_AoA_eq fmul_def t_def [symmetric] round32_minus round32_literals)
  have "round32 (t * 60) \<le> round32 30"
    using hi by (intro round32_mono) simp
  then show "current_AoA a \<le> 30"
    by (simp add: current_AoA_eq fmul_def t_def [symmetric] round32_literals)
qed

lemma current_velocity_error:
  assumes "a \<le> (0xFFF :: u32)"
  shows "\<bar>current_velocity a - of_nat (unat a) / 4095 * 300\<bar> \<le> 1 / 20000"
proof -
  define q :: rat where "q = of_nat (unat a) / 4095"
  define p where "p = amplitude a"
  have r: "0 \<le> p" "p \<le> 1"
    unfolding p_def using assms by (rule amplitude_range)+
  have "\<bar>p - q\<bar> \<le> 1 / 2 ^ 24"
    unfolding p_def q_def using assms by (rule amplitude_error)
  then have e1: "\<bar>p - q\<bar> \<le> 1 / 16777216"
    by simp
  have "\<bar>p * 300\<bar> \<le> 512"
    using r by linarith
  then have "\<bar>p * 300\<bar> \<le> pow2 9"
    by (simp add: pow2_def)
  then have "\<bar>round32 (p * 300) - p * 300\<bar> \<le> pow2 (9 - 24)"
    by (rule round32_error) simp
  then have e2: "\<bar>round32 (p * 300) - p * 300\<bar> \<le> 1 / 32768"
    by (simp add: pow2_def)
  have "\<bar>round32 (p * 300) - q * 300\<bar> \<le> 1 / 20000"
    using e1 e2 by linarith
  then show ?thesis
    by (simp only: current_velocity_eq fmul_def p_def q_def)
qed

lemma current_AoA_error:
  assumes "a \<le> (0xFFF :: u32)"
  shows "\<bar>current_AoA a - (of_nat (unat a) / 4095 - 1 / 2) * 60\<bar> \<le> 1 / 100000"
proof -
  define q :: rat where "q = of_nat (unat a) / 4095"
  define p where "p = amplitude a"
  define t where "t = round32 (p - 1 / 2)"
  have r: "0 \<le> p" "p \<le> 1"
    unfolding p_def using assms by (rule amplitude_range)+
  have "\<bar>p - q\<bar> \<le> 1 / 2 ^ 24"
    unfolding p_def q_def using assms by (rule amplitude_error)
  then have e1: "\<bar>p - q\<bar> \<le> 1 / 16777216"
    by simp
  have "\<bar>p - 1 / 2\<bar> \<le> 1 / 2"
    using r by linarith
  then have "\<bar>p - 1 / 2\<bar> \<le> pow2 (- 1)"
    by (simp add: pow2_def)
  then have "\<bar>round32 (p - 1 / 2) - (p - 1 / 2)\<bar> \<le> pow2 (- 1 - 24)"
    by (rule round32_error) simp
  then have e2: "\<bar>t - (p - 1 / 2)\<bar> \<le> 1 / 33554432"
    by (simp add: pow2_def t_def)
  have "\<bar>t * 60\<bar> \<le> 32"
    using r e2 by linarith
  then have "\<bar>t * 60\<bar> \<le> pow2 5"
    by (simp add: pow2_def)
  then have "\<bar>round32 (t * 60) - t * 60\<bar> \<le> pow2 (5 - 24)"
    by (rule round32_error) simp
  then have e3: "\<bar>round32 (t * 60) - t * 60\<bar> \<le> 1 / 524288"
    by (simp add: pow2_def)
  have "\<bar>round32 (t * 60) - (q - 1 / 2) * 60\<bar> \<le> 1 / 100000"
  proof -
    have eq: "(q - 1 / 2) * 60 = 60 * q - 30"
      by simp
    show ?thesis
      unfolding eq
    proof (rule abs_leI)
      show "round32 (t * 60) - (60 * q - 30) \<le> 1 / 100000"
        using abs_le_D1 [OF e1] abs_le_D1 [OF e2] abs_le_D1 [OF e3] by linarith
      show "- (round32 (t * 60) - (60 * q - 30)) \<le> 1 / 100000"
        using abs_le_D2 [OF e1] abs_le_D2 [OF e2] abs_le_D2 [OF e3] by linarith
    qed
  qed
  then show ?thesis
    by (simp only: current_AoA_eq fmul_def fsub_def p_def q_def t_def)
qed

lemma current_velocity_mono:
  assumes "a \<le> b" and "b \<le> (0xFFF :: u32)"
  shows "current_velocity a \<le> current_velocity b"
proof -
  have "amplitude a * 300 \<le> amplitude b * 300"
    using amplitude_mono [OF assms] by simp
  then show ?thesis
    unfolding current_velocity_eq fmul_def by (rule round32_mono)
qed

lemma current_AoA_mono:
  assumes "a \<le> b" and "b \<le> (0xFFF :: u32)"
  shows "current_AoA a \<le> current_AoA b"
proof -
  have "amplitude a - 1 / 2 \<le> amplitude b - 1 / 2"
    using amplitude_mono [OF assms] by simp
  then have "round32 (amplitude a - 1 / 2) \<le> round32 (amplitude b - 1 / 2)"
    by (rule round32_mono)
  then have "round32 (amplitude a - 1 / 2) * 60 \<le> round32 (amplitude b - 1 / 2) * 60"
    by simp
  then show ?thesis
    unfolding current_AoA_eq fmul_def fsub_def by (rule round32_mono)
qed

lemma conversion_values:
  "current_velocity 1409 = 1691213 / 16384" "current_velocity 1410 = 6769653 / 65536"
  "current_AoA 3071 = 61425 / 4096" "current_AoA 3072 = 3935041 / 262144"
  by code_simp+

lemma stalling_raw_codes:
  assumes "a0 \<le> (0xFFF :: u32)" and "a1 \<le> (0xFFF :: u32)"
  shows "stalling (current_velocity a0) (current_AoA a1) \<longleftrightarrow> a0 \<le> 1409 \<or> 3072 \<le> a1"
proof -
  have v: "current_velocity a0 < velocity_stall \<longleftrightarrow> a0 \<le> 1409"
  proof (cases "a0 \<le> 1409")
    case True
    have "current_velocity a0 \<le> current_velocity 1409"
      using True by (rule current_velocity_mono) simp
    then show ?thesis
      using True by (simp add: conversion_values velocity_stall_value)
  next
    case False
    then have "1410 \<le> a0"
      by (simp add: word_le_nat_alt not_le)
    then have "current_velocity 1410 \<le> current_velocity a0"
      using assms(1) by (rule current_velocity_mono)
    then show ?thesis
      using False by (simp add: conversion_values velocity_stall_value)
  qed
  have g: "MAX_AOA < current_AoA a1 \<longleftrightarrow> 3072 \<le> a1"
  proof (cases "3072 \<le> a1")
    case True
    then have "current_AoA 3072 \<le> current_AoA a1"
      using assms(2) by (rule current_AoA_mono)
    then show ?thesis
      using True by (simp add: conversion_values MAX_AOA_value)
  next
    case False
    then have "a1 \<le> 3071"
      by (simp add: word_le_nat_alt not_le)
    then have "current_AoA a1 \<le> current_AoA 3071"
      by (rule current_AoA_mono) simp
    then show ?thesis
      using False by (simp add: conversion_values MAX_AOA_value)
  qed
  show ?thesis
    by (simp add: stalling_def v g)
qed

section \<open>The square root and the stall threshold\<close>

lemma isqrt_nonpos: "n \<le> 0 \<Longrightarrow> isqrt n = 0"
  by (subst isqrt.simps) simp

lemma isqrt_correct:
  "0 \<le> n \<Longrightarrow> isqrt n * isqrt n \<le> n \<and> n < (isqrt n + 1) * (isqrt n + 1)"
proof (induction n rule: isqrt.induct)
  case (1 n)
  show ?case
  proof (cases "n \<le> 0")
    case True
    with "1.prems" have "n = 0" by simp
    then show ?thesis by (simp add: isqrt_nonpos)
  next
    case False
    define s where "s = isqrt (n div 4)"
    have "0 \<le> n div 4" using "1.prems" by simp
    then have ih: "s * s \<le> n div 4" "n div 4 < (s + 1) * (s + 1)"
      using "1.IH" [OF False] by (simp_all add: s_def)
    have n1: "4 * (n div 4) \<le> n" and n2: "n \<le> 4 * (n div 4) + 3"
      by presburger+
    have a: "(2 * s) * (2 * s) \<le> n"
    proof -
      have "(2 * s) * (2 * s) = 4 * (s * s)" by simp
      also have "\<dots> \<le> 4 * (n div 4)" using ih(1) by simp
      finally show ?thesis using n1 by simp
    qed
    have b: "n < (2 * s + 2) * (2 * s + 2)"
    proof -
      have "n div 4 + 1 \<le> (s + 1) * (s + 1)" using ih(2) by simp
      then have "4 * (n div 4) + 4 \<le> 4 * ((s + 1) * (s + 1))" by simp
      also have "4 * ((s + 1) * (s + 1)) = (2 * s + 2) * (2 * s + 2)"
        by (simp add: algebra_simps)
      finally show ?thesis using n2 by simp
    qed
    have eq: "isqrt n = (if (2 * s + 1) * (2 * s + 1) \<le> n then 2 * s + 1 else 2 * s)"
      using False by (subst isqrt.simps) (simp add: s_def Let_def)
    show ?thesis
    proof (cases "(2 * s + 1) * (2 * s + 1) \<le> n")
      case True
      have "2 * s + 1 + 1 = 2 * s + 2" by simp
      then show ?thesis using True b by (simp only: eq if_True)
    next
      case False
      then have "n < (2 * s + 1) * (2 * s + 1)" by simp
      then show ?thesis using False a by (simp only: eq if_False simp_thms)
    qed
  qed
qed

lemma isqrt_nonneg: "0 \<le> isqrt n"
proof (induction n rule: isqrt.induct)
  case (1 n)
  show ?case
  proof (cases "n \<le> 0")
    case True
    then show ?thesis by (simp add: isqrt_nonpos)
  next
    case False
    have "0 \<le> isqrt (n div 4)"
      using False by (rule "1.IH")
    then show ?thesis
      using False by (subst isqrt.simps) (simp add: Let_def)
  qed
qed

text \<open>
  The model of \<^verbatim>\<open>sqrtf\<close> is the correctly rounded root: its result is within half a unit
  in the last place of the real square root, and it is a multiple of that unit with a
  24-bit significand.
\<close>

lemma sqrt32_nearest:
  assumes "0 < x"
  shows "\<bar>real_of_rat (sqrt32 x) - sqrt (real_of_rat x)\<bar>
    \<le> real_of_rat (pow2 (ilog2 x div 2 - 23)) / 2"
proof -
  define u where "u = pow2 (ilog2 x div 2 - 23)"
  define s where "s = x / (u * u)"
  define m where "m = isqrt \<lfloor>s\<rfloor>"
  define h :: rat where "h = (of_int m + 1 / 2) * (of_int m + 1 / 2)"
  define r where "r = (if s < h then m else if h < s then m + 1 else if even m then m else m + 1)"
  define S where "S = sqrt (real_of_rat s)"
  have u: "0 < u" by (simp add: u_def pow2_pos)
  have s0: "0 < s" using assms u by (simp add: s_def)
  then have fs: "0 \<le> \<lfloor>s\<rfloor>" by simp
  have eq: "sqrt32 x = of_int r * u"
    using assms by (simp add: sqrt32_def Let_def u_def s_def m_def h_def r_def)
  have m0: "0 \<le> m" by (simp add: m_def isqrt_nonneg)
  have m12: "m * m \<le> \<lfloor>s\<rfloor>" "\<lfloor>s\<rfloor> < (m + 1) * (m + 1)"
    using isqrt_correct [OF fs] by (simp_all add: m_def)
  have lo: "(of_int (m * m) :: rat) \<le> s"
  proof -
    have "(of_int (m * m) :: rat) \<le> of_int \<lfloor>s\<rfloor>"
      using m12(1) by (simp only: of_int_le_iff)
    also have "\<dots> \<le> s" by simp
    finally show ?thesis .
  qed
  have hi: "s < of_int ((m + 1) * (m + 1))"
  proof -
    have "\<lfloor>s\<rfloor> + 1 \<le> (m + 1) * (m + 1)" using m12(2) by simp
    then have "(of_int (\<lfloor>s\<rfloor> + 1) :: rat) \<le> of_int ((m + 1) * (m + 1))"
      by (simp only: of_int_le_iff)
    moreover have "s < of_int (\<lfloor>s\<rfloor> + 1)" by linarith
    ultimately show ?thesis by linarith
  qed
  have S1: "real_of_int m \<le> S"
  proof -
    have "real_of_rat (of_int (m * m)) \<le> real_of_rat s"
      using lo by (simp only: of_rat_less_eq)
    then have "(real_of_int m)\<^sup>2 \<le> real_of_rat s"
      by (simp add: power2_eq_square of_rat_mult)
    then show ?thesis
      unfolding S_def by (rule real_le_rsqrt)
  qed
  have S2: "S < real_of_int m + 1"
  proof -
    have "real_of_rat s < real_of_rat (of_int ((m + 1) * (m + 1)))"
      using hi by (simp only: of_rat_less)
    then have "real_of_rat s < (real_of_int m + 1)\<^sup>2"
      by (simp add: power2_eq_square of_rat_mult of_rat_add)
    moreover have "0 \<le> real_of_int m + 1" using m0 by simp
    ultimately show ?thesis
      unfolding S_def by (intro real_less_lsqrt)
  qed
  have hr: "real_of_rat h = (real_of_int m + 1 / 2)\<^sup>2"
    by (simp add: h_def power2_eq_square of_rat_mult of_rat_add of_rat_divide)
  have near: "\<bar>real_of_int r - S\<bar> \<le> 1 / 2"
  proof -
    consider "s < h" | "h < s" | "s = h" by linarith
    then show ?thesis
    proof cases
      case 1
      then have "real_of_rat s < real_of_rat h"
        by (simp only: of_rat_less)
      then have "real_of_rat s < (real_of_int m + 1 / 2)\<^sup>2"
        by (simp only: hr)
      moreover have "0 \<le> real_of_int m + 1 / 2" using m0 by simp
      ultimately have "S < real_of_int m + 1 / 2"
        unfolding S_def by (intro real_less_lsqrt)
      moreover have "r = m" using 1 by (simp add: r_def)
      ultimately show ?thesis using S1 by simp
    next
      case 2
      then have "real_of_rat h < real_of_rat s"
        by (simp only: of_rat_less)
      then have "(real_of_int m + 1 / 2)\<^sup>2 < real_of_rat s"
        by (simp only: hr)
      then have "real_of_int m + 1 / 2 < S"
        unfolding S_def by (rule real_less_rsqrt)
      moreover have "r = m + 1" using 2 by (simp add: r_def)
      ultimately show ?thesis using S2 by simp
    next
      case 3
      have "S = \<bar>real_of_int m + 1 / 2\<bar>"
        unfolding S_def 3 hr by (rule real_sqrt_abs)
      then have "S = real_of_int m + 1 / 2" using m0 by simp
      moreover have "r = m \<or> r = m + 1" by (simp add: r_def)
      ultimately show ?thesis by auto
    qed
  qed
  have ur: "0 < real_of_rat u" using u by simp
  have "x = s * (u * u)" using u by (simp add: s_def)
  then have "real_of_rat x = real_of_rat s * (real_of_rat u * real_of_rat u)"
    by (simp add: of_rat_mult)
  then have "sqrt (real_of_rat x) = S * sqrt (real_of_rat u * real_of_rat u)"
    by (simp add: S_def real_sqrt_mult)
  then have sx: "sqrt (real_of_rat x) = S * real_of_rat u"
    using ur by simp
  have "real_of_rat (sqrt32 x) - sqrt (real_of_rat x) = (real_of_int r - S) * real_of_rat u"
    by (simp add: eq sx of_rat_mult left_diff_distrib)
  then have "\<bar>real_of_rat (sqrt32 x) - sqrt (real_of_rat x)\<bar> = \<bar>real_of_int r - S\<bar> * real_of_rat u"
    using ur by (simp add: abs_mult)
  also have "\<dots> \<le> 1 / 2 * real_of_rat u"
    using near ur by (simp only: mult_le_cancel_right_pos)
  finally show ?thesis
    by (simp add: u_def)
qed


lemma sqrt32_mantissa:
  assumes "0 < x"
  shows "\<exists>r. sqrt32 x = of_int r * pow2 (ilog2 x div 2 - 23) \<and> 2 ^ 23 \<le> r \<and> r \<le> 2 ^ 24"
proof -
  define k where "k = ilog2 x div 2"
  define u where "u = pow2 (k - 23)"
  define s where "s = x / (u * u)"
  define m where "m = isqrt \<lfloor>s\<rfloor>"
  define h :: rat where "h = (of_int m + 1 / 2) * (of_int m + 1 / 2)"
  define r where "r = (if s < h then m else if h < s then m + 1 else if even m then m else m + 1)"
  have u: "0 < u" by (simp add: u_def pow2_pos)
  have uu: "u * u = pow2 (2 * k - 46)"
  proof -
    have "u * u = pow2 ((k - 23) + (k - 23))"
      unfolding u_def by (rule pow2_add [symmetric])
    also have "(k - 23) + (k - 23) = 2 * k - 46" by simp
    finally show ?thesis .
  qed
  have k2: "2 * k \<le> ilog2 x" "ilog2 x + 1 \<le> 2 * k + 2"
    unfolding k_def by presburger+
  have s_lo: "of_int (2 ^ 46) \<le> s"
  proof -
    have p: "pow2 46 = of_int (2 ^ 46)"
      by (simp add: pow2_def)
    have "of_int (2 ^ 46) * (u * u) = pow2 (46 + (2 * k - 46))"
      unfolding uu p [symmetric] by (rule pow2_add [symmetric])
    also have "46 + (2 * k - 46) = 2 * k" by simp
    also have "pow2 (2 * k) \<le> pow2 (ilog2 x)"
      using k2(1) by (rule pow2_mono)
    also have "\<dots> \<le> x"
      using assms by (rule ilog2_bounds(1))
    finally show ?thesis
      using u by (simp add: s_def pos_le_divide_eq)
  qed
  have s_hi: "s < of_int (2 ^ 48)"
  proof -
    have "x < pow2 (ilog2 x + 1)"
      using assms by (rule ilog2_bounds(2))
    also have "\<dots> \<le> pow2 (2 * k + 2)"
      using k2(2) by (rule pow2_mono)
    also have "2 * k + 2 = 48 + (2 * k - 46)" by simp
    also have "pow2 (48 + (2 * k - 46)) = of_int (2 ^ 48) * (u * u)"
    proof -
      have p: "pow2 48 = of_int (2 ^ 48)"
        by (simp add: pow2_def)
      show ?thesis
        unfolding uu p [symmetric] by (rule pow2_add)
    qed
    finally show ?thesis
      using u by (simp add: s_def pos_divide_less_eq)
  qed
  have fs: "0 \<le> \<lfloor>s\<rfloor>"
    using s_lo by (simp add: le_floor_iff)
  have m0: "0 \<le> m" by (simp add: m_def isqrt_nonneg)
  have m12: "m * m \<le> \<lfloor>s\<rfloor>" "\<lfloor>s\<rfloor> < (m + 1) * (m + 1)"
    using isqrt_correct [OF fs] by (simp_all add: m_def)
  have f_lo: "2 ^ 46 \<le> \<lfloor>s\<rfloor>"
    using s_lo by (simp only: le_floor_iff)
  have f_hi: "\<lfloor>s\<rfloor> < 2 ^ 48"
    using s_hi by (simp only: floor_less_iff)
  have m_hi: "m < 2 ^ 24"
  proof (rule ccontr)
    assume "\<not> m < 2 ^ 24"
    then have "2 ^ 24 \<le> m" by simp
    then have "2 ^ 24 * 2 ^ 24 \<le> m * m"
      by (intro mult_mono) simp_all
    then have "2 ^ 48 \<le> m * m" by simp
    then show False using m12(1) f_hi by linarith
  qed
  have m_lo: "2 ^ 23 \<le> m"
  proof (rule ccontr)
    assume "\<not> 2 ^ 23 \<le> m"
    then have "m + 1 \<le> 2 ^ 23" by simp
    then have "(m + 1) * (m + 1) \<le> 2 ^ 23 * 2 ^ 23"
      using m0 by (intro mult_mono) simp_all
    then have "(m + 1) * (m + 1) \<le> 2 ^ 46" by simp
    then show False using m12(2) f_lo by linarith
  qed
  have "sqrt32 x = of_int r * u"
    using assms by (simp add: sqrt32_def Let_def k_def u_def s_def m_def h_def r_def)
  moreover have "r = m \<or> r = m + 1" by (simp add: r_def)
  ultimately show ?thesis
    using m_lo m_hi unfolding u_def k_def by auto
qed

lemma stall_quotient_value:
  "fdiv (fmul (round32 2) WEIGHT) (fmul (fmul RHO WING_AREA) CL_MAX) = 10922667 / 1024"
  by code_simp

lemma velocity_stall_nearest:
  "\<bar>real_of_rat velocity_stall - sqrt (10922667 / 1024)\<bar> \<le> 1 / 262144"
proof -
  have lo: "6768529 / 65536 - 1 / 262144 \<le> sqrt (10922667 / 1024)"
    by (rule real_le_rsqrt) (simp add: power2_eq_square)
  have hi: "sqrt (10922667 / 1024) \<le> 6768529 / 65536 + 1 / 262144"
    by (rule real_le_lsqrt) (simp_all add: power2_eq_square)
  have r: "real_of_rat velocity_stall = 6768529 / 65536"
    by (simp add: velocity_stall_value of_rat_divide)
  show ?thesis
    unfolding r using lo hi by linarith
qed

text \<open>
  Claim C6. For every raw code from 0 to 4095: the amplitude is the single-precision
  quotient \<open>raw_code / 4095.0\<close> (the integer converts exactly, so it is the exact quotient
  rounded once, within \<open>1 / 2 ^ 24\<close> of it), it is monotonically non-decreasing in the raw
  code and lies between 0 and 1; the velocity is the amplitude times 300; the angle is
  the amplitude minus 0.5, times 60, and lies between -30 and +30. Velocity and angle
  are within \<open>1/20000\<close> and \<open>1/100000\<close> of the exact values of their formulas.
\<close>

theorem unit_conversions:
  assumes "a \<le> (0xFFF :: u32)" and "b \<le> (0xFFF :: u32)"
  shows "amplitude a = round32 (of_nat (unat a) / 4095)
    \<and> \<bar>amplitude a - of_nat (unat a) / 4095\<bar> \<le> 1 / 2 ^ 24
    \<and> (a \<le> b \<longrightarrow> amplitude a \<le> amplitude b)
    \<and> 0 \<le> amplitude a \<and> amplitude a \<le> 1
    \<and> current_velocity a = fmul (amplitude a) 300
    \<and> \<bar>current_velocity a - of_nat (unat a) / 4095 * 300\<bar> \<le> 1 / 20000
    \<and> current_AoA a = fmul (fsub (amplitude a) (1 / 2)) 60
    \<and> \<bar>current_AoA a - (of_nat (unat a) / 4095 - 1 / 2) * 60\<bar> \<le> 1 / 100000
    \<and> - 30 \<le> current_AoA a \<and> current_AoA a \<le> 30"
proof -
  have m: "a \<le> b \<longrightarrow> amplitude a \<le> amplitude b"
    using amplitude_mono [OF _ assms(2)] by blast
  show ?thesis
    using amplitude_eq [OF assms(1)] amplitude_error [OF assms(1)] m
      amplitude_range [OF assms(1)] current_velocity_eq [of a]
      current_velocity_error [OF assms(1)] current_AoA_eq [of a]
      current_AoA_error [OF assms(1)] current_AoA_range [OF assms(1)]
    by (intro conjI)
qed

theorem unit_conversions_witness:
  "(1365 :: u32) \<le> 0xFFF \<and> (2048 :: u32) \<le> 0xFFF \<and> (1365 :: u32) \<le> 2048
   \<and> amplitude 1365 \<le> amplitude 2048
   \<and> amplitude 1365 = 11184811 / 33554432
   \<and> current_velocity 1365 = 100
   \<and> - 30 \<le> current_AoA 1365 \<and> current_AoA 1365 \<le> 30"
proof -
  have h1: "(1365 :: u32) \<le> 0xFFF" by simp
  have h2: "(2048 :: u32) \<le> 0xFFF" by simp
  have h3: "(1365 :: u32) \<le> 2048" by simp
  have v: "amplitude 1365 = 11184811 / 33554432"
    by code_simp
  show ?thesis
    using unit_conversions [OF h1 h2] h1 h2 h3 v current_velocity_1365 by simp
qed

text \<open>
  Claim C2, as amended. The threshold is the constant
  \<open>sqrtf((2 * WEIGHT) / (RHO * WING_AREA * CL_MAX))\<close>, which depends on no input of the
  loop. With the program's constants its value is \<open>6768529 / 65536\<close>, about 103.28 and
  within \<open>1 / 1000000\<close> of the exact square root of the formula. With angle 0 the alarm is
  raised at velocity 100 and not at velocity 150.
\<close>

theorem stall_threshold:
  "velocity_stall = sqrt32 (fdiv (fmul 2 WEIGHT) (fmul (fmul RHO WING_AREA) CL_MAX))
   \<and> velocity_stall = 6768529 / 65536
   \<and> \<bar>real_of_rat velocity_stall - sqrt ((2 * 980000) / (1.225 * 125 * 1.2))\<bar> < 1 / 1000000
   \<and> 103.27 < velocity_stall \<and> velocity_stall < 103.29
   \<and> stalling 100 0 \<and> \<not> stalling 150 0"
proof -
  have d: "velocity_stall = sqrt32 (fdiv (fmul 2 WEIGHT) (fmul (fmul RHO WING_AREA) CL_MAX))"
    by (simp only: velocity_stall_def round32_literals)
  have x: "(2 * 980000) / (1.225 * 125 * 1.2) = (32000 / 3 :: real)"
    by simp
  have lo: "6768529 / 65536 - 1 / 1000000 < sqrt (32000 / 3)"
    by (rule real_less_rsqrt) (simp add: power2_eq_square)
  have hi: "sqrt (32000 / 3) < 6768529 / 65536 + 1 / 1000000"
    by (rule real_less_lsqrt) (simp_all add: power2_eq_square)
  have r: "real_of_rat velocity_stall = 6768529 / 65536"
    by (simp add: velocity_stall_value of_rat_divide)
  have s: "\<bar>real_of_rat velocity_stall - sqrt ((2 * 980000) / (1.225 * 125 * 1.2))\<bar> < 1 / 1000000"
    unfolding x r using lo hi by linarith
  have a: "stalling 100 0 \<and> \<not> stalling 150 0"
    by (simp add: stalling_def velocity_stall_value MAX_AOA_value)
  show ?thesis
    using d s a by (simp add: velocity_stall_value)
qed

text \<open>
  Claim C2, as stated, gives the threshold as about 115.96. The threshold the program's
  constants give differs from 115.96 by more than 12.
\<close>

theorem stall_threshold_not_115_96:
  "\<not> \<bar>velocity_stall - 115.96\<bar> \<le> 12"
  by (simp add: velocity_stall_value)

end
